(* ===== verification/Prelude.thy ===== *)
theory Prelude
  imports Main "HOL-Library.Sublist"
begin

text \<open>
  Shared vocabulary of the development.  Go strings are byte strings, so a Go
  \<open>string\<close> (and a \<open>[]byte\<close>) is modelled as an Isabelle \<^typ>\<open>string\<close>, a list
  of 8-bit characters; UTF-8 text is its byte sequence.  A Go \<open>error\<close> value is
  only ever propagated or printed by the program, so it is modelled by its
  message.  The collections below gather the facts the component theories
  hand to the simplifier when they evaluate a model on a concrete input.
\<close>

type_synonym bytes = string
type_synonym goerr = string

named_theorems go_defs \<open>definitions unfolded to evaluate the model on a concrete input\<close>
named_theorems go_simps \<open>characteristic equations of the modelled library functions\<close>

text \<open>Byte values and the ASCII classes the code and the Go libraries test.\<close>

definition byte :: "char \<Rightarrow> nat" where
  "byte c = of_char c"

definition is_digit :: "char \<Rightarrow> bool" where
  "is_digit c \<longleftrightarrow> 48 \<le> byte c \<and> byte c \<le> 57"

definition is_alpha :: "char \<Rightarrow> bool" where
  "is_alpha c \<longleftrightarrow> (97 \<le> byte c \<and> byte c \<le> 122) \<or> (65 \<le> byte c \<and> byte c \<le> 90)"

definition digits :: "string \<Rightarrow> bool" where
  "digits s \<longleftrightarrow> s \<noteq> [] \<and> list_all is_digit s"

declare byte_def [go_defs] is_digit_def [go_defs] is_alpha_def [go_defs] digits_def [go_defs]

subsection \<open>Generic lemmas on lists shared by the components\<close>

lemma suffix_last_eq:
  assumes "suffix a s" and "suffix b s" and "a \<noteq> []" and "b \<noteq> []"
  shows "last a = last b"
proof -
  from assms(1) obtain p where "s = p @ a" by (auto simp: suffix_def)
  moreover from assms(2) obtain q where "s = q @ b" by (auto simp: suffix_def)
  ultimately have "last (p @ a) = last (q @ b)" by simp
  with assms(3,4) show ?thesis by simp
qed

lemma digits_append [simp]:
  "digits (a @ b) \<longleftrightarrow> (digits a \<and> list_all is_digit b) \<or> (a = [] \<and> digits b)"
  by (auto simp: digits_def)

lemma takeWhile_digits_append:
  "list_all is_digit a \<Longrightarrow> \<not> is_digit c \<Longrightarrow> takeWhile is_digit (a @ c # r) = a"
  by (induction a) auto

lemma not_digit_slash [simp]: "\<not> is_digit CHR ''/''"
  and not_digit_dot [simp]: "\<not> is_digit CHR ''.''"
  and not_digit_h [simp]: "\<not> is_digit CHR ''h''"
  by (simp_all add: is_digit_def byte_def)

lemma digit_not_special:
  "is_digit c \<Longrightarrow> c \<noteq> CHR ''#'' \<and> c \<noteq> CHR ''?'' \<and> c \<noteq> CHR ''%'' \<and> c \<noteq> CHR ''/'' \<and> c \<noteq> CHR ''@'' \<and>
     \<not> (byte c < 32 \<or> byte c = 127)"
  by (auto simp: is_digit_def byte_def)

lemma suffix_single: "suffix [c] s \<longleftrightarrow> s \<noteq> [] \<and> last s = c"
  by (metis append_butlast_last_id last_snoc snoc_eq_iff_butlast suffix_def suffix_bot.extremum_uniqueI)

lemma digits_no:
  assumes "list_all is_digit A"
  shows "CHR ''#'' \<notin> set A" "CHR ''?'' \<notin> set A" "CHR ''%'' \<notin> set A" "CHR ''/'' \<notin> set A"
    "\<not> list_ex (\<lambda>c. byte c < 32 \<or> byte c = 127) A"
  using assms digit_not_special by (auto simp: list_all_iff list_ex_iff)

end
