(* ===== verification/Regexp.thy ===== *)
theory Regexp
  imports Prelude
begin

text \<open>
  The regular expression of findEntries (main.go lines 79-82) and the part
  of Go's \<open>regexp\<close> package it relies on.  Go matches on runes: the input
  is decoded step by step with \<open>utf8.DecodeRuneInString\<close>, an invalid or
  truncated sequence being one rune of width one (U+FFFD).  A rune is kept
  here as the bytes it was decoded from, since the pattern only compares
  runes with ASCII characters.  The matcher is the backtracking search whose
  first success Go's engines are specified to return (leftmost-first,
  greedy repetitions tried longest first), on the pattern syntax the code
  uses: single-rune atoms, greedy repetition of an atom, capture groups and
  the end-of-text anchor \<open>$\<close>.
\<close>

section \<open>UTF-8 decoding: utf8.DecodeRuneInString\<close>

definition is_cont :: "char \<Rightarrow> bool" where
  "is_cont c \<longleftrightarrow> 128 \<le> byte c \<and> byte c \<le> 191"

text \<open>
  The width of the first rune of a non-empty byte string.  \<open>rune_seq b0\<close> is
  the sequence size (\<open>first[s0] & 7\<close>) and \<open>second_ok b0 b1\<close> the accept
  range of the second byte (\<open>acceptRanges\<close>); a lead byte that starts no
  sequence, a truncated sequence or a byte outside its range gives width 1.
\<close>

definition rune_seq :: "nat \<Rightarrow> nat" where
  "rune_seq b0 = (if b0 < 128 then 1
                  else if 194 \<le> b0 \<and> b0 \<le> 223 then 2
                  else if 224 \<le> b0 \<and> b0 \<le> 239 then 3
                  else if 240 \<le> b0 \<and> b0 \<le> 244 then 4 else 0)"

definition second_ok :: "nat \<Rightarrow> nat \<Rightarrow> bool" where
  "second_ok b0 b1 \<longleftrightarrow>
     (if b0 = 224 then 160 \<le> b1 \<and> b1 \<le> 191
      else if b0 = 237 then 128 \<le> b1 \<and> b1 \<le> 159
      else if b0 = 240 then 144 \<le> b1 \<and> b1 \<le> 191
      else if b0 = 244 then 128 \<le> b1 \<and> b1 \<le> 143
      else 128 \<le> b1 \<and> b1 \<le> 191)"

definition rune_width :: "bytes \<Rightarrow> nat" where
  "rune_width s =
     (let n = length s; b0 = byte (s ! 0); sz = rune_seq b0 in
      if n = 0 then 0
      else if sz \<le> 1 then 1
      else if n < sz then 1
      else if \<not> second_ok b0 (byte (s ! 1)) then 1
      else if sz \<le> 2 then 2
      else if \<not> is_cont (s ! 2) then 1
      else if sz \<le> 3 then 3
      else if \<not> is_cont (s ! 3) then 1
      else 4)"

type_synonym rune = bytes

function runes :: "bytes \<Rightarrow> rune list" where
  "runes s = (if s = [] then [] else take (rune_width s) s # runes (drop (rune_width s) s))"
  by pat_completeness auto
termination
proof (relation "measure length")
  fix s :: bytes
  assume "s \<noteq> []"
  then have "0 < rune_width s" by (simp add: rune_width_def Let_def)
  with \<open>s \<noteq> []\<close> show "(drop (rune_width s) s, s) \<in> measure length" by simp
qed simp

declare runes.simps [simp del]

section \<open>Patterns and the backtracking matcher\<close>

text \<open>Atoms match one rune: a literal ASCII character, \<open>.\<close> (any rune but a newline) and \<open>[0-9]\<close>.\<close>

datatype atom = Lit char | AnyNotNL | Digit

datatype piece =
    One atom
  | Rep nat atom   \<comment> \<open>greedy repetition, at least the given number of times: \<open>*\<close> is 0, \<open>+\<close> is 1\<close>
  | Open nat       \<comment> \<open>start of capture group \<open>i\<close>\<close>
  | Close nat      \<comment> \<open>end of capture group \<open>i\<close>\<close>
  | EndText        \<comment> \<open>\<open>$\<close> without the multi-line flag\<close>

primrec amatch :: "atom \<Rightarrow> rune \<Rightarrow> bool" where
  "amatch (Lit c) r \<longleftrightarrow> r = [c]"
| "amatch AnyNotNL r \<longleftrightarrow> r \<noteq> [CHR 0x0A]"
| "amatch Digit r \<longleftrightarrow> (\<exists>d. r = [d] \<and> is_digit d)"

type_synonym slots = "nat option list"

text \<open>
  \<open>bt ps rs pos sl\<close> runs the pattern \<open>ps\<close> on the remaining runes \<open>rs\<close>,
  \<open>pos\<close> being the index of the first of them and \<open>sl\<close> the capture slots;
  it returns the end position and the slots of the first match found.  A
  repetition tries the longest run of matching runes first and gives back one
  rune at a time (\<open>bt_rep\<close>), as a backtracking engine does.
\<close>

fun bt :: "piece list \<Rightarrow> rune list \<Rightarrow> nat \<Rightarrow> slots \<Rightarrow> (nat \<times> slots) option"
and bt_rep :: "nat \<Rightarrow> piece list \<Rightarrow> rune list \<Rightarrow> nat \<Rightarrow> slots \<Rightarrow> nat \<Rightarrow> (nat \<times> slots) option" where
  "bt [] rs pos sl = Some (pos, sl)"
| "bt (One a # ps) rs pos sl =
     (case rs of [] \<Rightarrow> None
      | r # rs' \<Rightarrow> if amatch a r then bt ps rs' (Suc pos) sl else None)"
| "bt (Rep lo a # ps) rs pos sl =
     (let n = length (takeWhile (amatch a) rs) in
      if n < lo then None else bt_rep lo ps rs pos sl n)"
| "bt (Open i # ps) rs pos sl = bt ps rs pos (sl[2 * i := Some pos])"
| "bt (Close i # ps) rs pos sl = bt ps rs pos (sl[2 * i + 1 := Some pos])"
| "bt (EndText # ps) rs pos sl = (if rs = [] then bt ps rs pos sl else None)"
| "bt_rep lo ps rs pos sl k =
     (case bt ps (drop k rs) (pos + k) sl of
        Some res \<Rightarrow> Some res
      | None \<Rightarrow> if k \<le> lo then None else bt_rep lo ps rs pos sl (k - 1))"

text \<open>
  Unanchored search: the leftmost start position at which the pattern
  matches, trying the positions in order (\<open>regexp.doExecute\<close>).
\<close>

fun search :: "piece list \<Rightarrow> slots \<Rightarrow> rune list \<Rightarrow> nat \<Rightarrow> (nat \<times> nat \<times> slots) option" where
  "search ps sl0 rs i =
     (case bt ps rs i sl0 of
        Some (e, sl) \<Rightarrow> Some (i, e, sl)
      | None \<Rightarrow> (case rs of [] \<Rightarrow> None | _ # rs' \<Rightarrow> search ps sl0 rs' (Suc i)))"

definition slot_text :: "rune list \<Rightarrow> slots \<Rightarrow> nat \<Rightarrow> bytes" where
  "slot_text rs sl j =
     (case (sl ! (2 * j), sl ! (2 * j + 1)) of
        (Some a, Some b) \<Rightarrow> concat (take (b - a) (drop a rs))
      | _ \<Rightarrow> [])"

text \<open>
  \<open>(*Regexp).FindStringSubmatch\<close> for a pattern with \<open>ng\<close> groups: \<open>nil\<close>
  (the empty list) when there is no match, otherwise the text of the whole
  match followed by the text of each group, "" for a group that did not
  take part.
\<close>

definition find_string_submatch :: "piece list \<Rightarrow> nat \<Rightarrow> bytes \<Rightarrow> bytes list" where
  "find_string_submatch ps ng s =
     (let rs = runes s in
      case search ps (replicate (2 * Suc ng) None) rs 0 of
        None \<Rightarrow> []
      | Some (i, e, sl) \<Rightarrow>
          let sl' = sl[0 := Some i, 1 := Some e] in
          map (slot_text rs sl') [0..<Suc ng])"

section \<open>The pattern of findEntries\<close>

definition lits :: "string \<Rightarrow> piece list" where
  "lits s = map (\<lambda>c. One (Lit c)) s"

text \<open>\<^verbatim>\<open>.*/cards/([0-9]+)/card([0-9]+).html$\<close>, two groups.\<close>

definition card_pat :: "piece list" where
  "card_pat =
     [Rep 0 AnyNotNL] @ lits ''/cards/'' @ [Open 1, Rep 1 Digit, Close 1] @
     lits ''/card'' @ [Open 2, Rep 1 Digit, Close 2, One AnyNotNL] @ lits ''html'' @ [EndText]"

definition card_tokens :: "bytes \<Rightarrow> bytes list" where
  "card_tokens href = find_string_submatch card_pat 2 href"

text \<open>What follows the leading \<open>.*\<close>, and the rune sequences it accepts.\<close>

definition card_tail :: "piece list" where
  "card_tail =
     lits ''/cards/'' @ [Open 1, Rep 1 Digit, Close 1] @
     lits ''/card'' @ [Open 2, Rep 1 Digit, Close 2, One AnyNotNL] @ lits ''html'' @ [EndText]"

definition asc :: "bytes \<Rightarrow> rune list" where
  "asc s = map (\<lambda>c. [c]) s"

definition card_shape :: "bytes \<Rightarrow> bytes \<Rightarrow> rune \<Rightarrow> rune list" where
  "card_shape A T c = asc ''/cards/'' @ asc A @ asc ''/card'' @ asc T @ [c] @ asc ''html''"

section \<open>Lemmas: rune decoding\<close>

definition ascii :: "bytes \<Rightarrow> bool" where
  "ascii s \<longleftrightarrow> list_all (\<lambda>c. byte c < 128) s"

definition one_rune :: "bytes \<Rightarrow> bool" where
  "one_rune c \<longleftrightarrow> runes c = [c]"

lemma rune_width_ascii: "byte a < 128 \<Longrightarrow> rune_width (a # y) = 1"
  by (simp add: rune_width_def rune_seq_def)

lemma rune_width_pos: "s \<noteq> [] \<Longrightarrow> 0 < rune_width s"
  by (simp add: rune_width_def Let_def)

lemma rune_width_le: "rune_width s \<le> length s"
proof (cases "s = []")
  case False
  then have "1 \<le> length s" by (simp add: Suc_le_eq)
  then show ?thesis by (auto simp: rune_width_def Let_def)
qed (simp add: rune_width_def)

lemma runes_Nil [simp]: "runes [] = []"
  by (simp add: runes.simps)

lemma runes_ascii_Cons: "byte a < 128 \<Longrightarrow> runes (a # y) = [a] # runes y"
  by (subst runes.simps) (simp add: rune_width_ascii)

lemma runes_ascii [simp]: "ascii s \<Longrightarrow> runes (s @ y) = asc s @ runes y"
  by (induction s) (auto simp: ascii_def asc_def runes_ascii_Cons)

lemma ascii_append [simp]: "ascii (a @ b) \<longleftrightarrow> ascii a \<and> ascii b"
  by (simp add: ascii_def)

lemma asc_append [simp]: "asc (a @ b) = asc a @ asc b"
  by (simp add: asc_def)

lemma length_asc [simp]: "length (asc s) = length s"
  by (simp add: asc_def)

lemma concat_asc [simp]: "concat (asc s) = s"
  by (induction s) (auto simp: asc_def)

text \<open>A continuation byte is never ASCII, so decoding never reads across an ASCII byte.\<close>

lemma rune_width_append_ascii:
  assumes "x \<noteq> []" and "y = [] \<or> byte (hd y) < 128"
  shows "rune_width (x @ y) = rune_width x"
proof (cases "length x < rune_seq (byte (x ! 0))")
  case False
  then show ?thesis using assms(1)
    by (simp add: rune_width_def Let_def nth_append)
next
  case True
  then have "rune_width x = 1" using assms(1)
    by (simp add: rune_width_def Let_def)
  moreover have "rune_width (x @ y) = 1"
  proof (cases y)
    case Nil
    with \<open>rune_width x = 1\<close> show ?thesis by simp
  next
    case (Cons b y')
    with assms(2) have b: "byte b < 128" by simp
    have "1 \<le> length x" using assms(1) by (simp add: Suc_le_eq)
    moreover have "length x < 4" using True by (auto simp: rune_seq_def split: if_splits)
    ultimately have n: "length x \<in> {1, 2, 3}" by auto
    from n b Cons True assms(1) show ?thesis
      by (auto simp: rune_width_def Let_def nth_append second_ok_def is_cont_def rune_seq_def
               split: if_splits)
  qed
  ultimately show ?thesis by simp
qed

lemma runes_append_ascii:
  "y = [] \<or> byte (hd y) < 128 \<Longrightarrow> runes (x @ y) = runes x @ runes y"
proof (induction x rule: runes.induct)
  case (1 x)
  show ?case
  proof (cases "x = []")
    case True
    then show ?thesis by simp
  next
    case False
    let ?w = "rune_width x"
    have w: "rune_width (x @ y) = ?w" using False "1.prems" by (rule rune_width_append_ascii)
    have le: "?w \<le> length x" by (rule rune_width_le)
    have "runes (x @ y) = take ?w x # runes (drop ?w x @ y)"
      using False le by (subst runes.simps) (simp add: w)
    also have "runes (drop ?w x @ y) = runes (drop ?w x) @ runes y"
      using False "1.prems" by (rule "1.IH")
    finally show ?thesis
      using False by (subst (2) runes.simps) simp
  qed
qed

lemma concat_runes [simp]: "concat (runes s) = s"
proof (induction s rule: runes.induct)
  case (1 s)
  then show ?case by (subst runes.simps) auto
qed

lemma rune_seq_le: "rune_seq b \<le> 4"
  by (simp add: rune_seq_def)

lemma rune_width_cases:
  assumes "s \<noteq> []"
  shows "rune_width s = 1 \<or>
         (rune_width s = rune_seq (byte (s ! 0)) \<and> rune_seq (byte (s ! 0)) \<le> length s)"
  using assms rune_seq_le [of "byte (s ! 0)"] by (simp add: rune_width_def Let_def not_less)

lemma rune_width_single: "rune_width [c] = 1"
  by (simp add: rune_width_def Let_def)

lemma rune_width_take:
  assumes "s \<noteq> []"
  shows "rune_width (take (rune_width s) s) = rune_width s"
proof (cases "rune_width s = 1")
  case True
  with assms show ?thesis by (cases s) (simp_all add: rune_width_single)
next
  case False
  with rune_width_cases [OF assms] have w: "rune_width s = rune_seq (byte (s ! 0))"
    and le: "rune_seq (byte (s ! 0)) \<le> length s" by auto
  let ?t = "take (rune_seq (byte (s ! 0))) s"
  from False w have "1 < rune_seq (byte (s ! 0))"
    using rune_width_pos [OF assms] by linarith
  then have "length ?t = rune_seq (byte (s ! 0))" and "\<forall>i < length ?t. ?t ! i = s ! i"
    using le by auto
  then show ?thesis using w le assms \<open>1 < rune_seq (byte (s ! 0))\<close> rune_seq_le [of "byte (s ! 0)"]
    by (auto simp: rune_width_def Let_def split: if_splits)
qed

lemma runes_one_rune: "r \<in> set (runes s) \<Longrightarrow> one_rune r"
proof (induction s rule: runes.induct)
  case (1 s)
  show ?case
  proof (cases "s = []")
    case True
    with "1.prems" show ?thesis by simp
  next
    case False
    let ?w = "rune_width s"
    from "1.prems" False have "r = take ?w s \<or> r \<in> set (runes (drop ?w s))"
      by (subst (asm) runes.simps) auto
    then show ?thesis
    proof
      assume r: "r = take ?w s"
      have "rune_width r = length r"
        using r False rune_width_take [OF False] rune_width_le [of s] by simp
      moreover have "r \<noteq> []" using r False rune_width_pos [of s] by simp
      ultimately show ?thesis by (subst one_rune_def, subst runes.simps) simp
    qed (use "1.IH" False in blast)
  qed
qed

section \<open>Lemmas: the matcher\<close>

lemma bt_lits:
  "bt (lits s @ ps) rs pos sl =
     (if take (length s) rs = asc s then bt ps (drop (length s) rs) (pos + length s) sl else None)"
proof (induction s arbitrary: rs pos)
  case Nil
  then show ?case by (simp add: lits_def asc_def)
next
  case (Cons c s)
  show ?case
    by (cases rs) (auto simp: lits_def asc_def Cons.IH [unfolded lits_def asc_def])
qed

lemma bt_rep_Some:
  "bt_rep lo ps rs pos sl k = Some res \<Longrightarrow> lo \<le> k \<Longrightarrow>
     \<exists>j. lo \<le> j \<and> j \<le> k \<and> bt ps (drop j rs) (pos + j) sl = Some res"
proof (induction k)
  case 0
  then show ?case by (auto split: option.splits)
next
  case (Suc k)
  then show ?case
    by (cases "bt ps (drop (Suc k) rs) (pos + Suc k) sl")
       (auto split: if_splits intro: le_SucI)
qed

lemma bt_rep_first:
  assumes "bt ps (drop j rs) (pos + j) sl = Some res" and "lo \<le> j" and "j \<le> k"
    and "\<forall>i. j < i \<and> i \<le> k \<longrightarrow> bt ps (drop i rs) (pos + i) sl = None"
  shows "bt_rep lo ps rs pos sl k = Some res"
  using assms
proof (induction k)
  case 0
  then show ?case by simp
next
  case (Suc k)
  show ?case
  proof (cases "j = Suc k")
    case True
    with Suc.prems show ?thesis by simp
  next
    case False
    with Suc.prems(3) have "j \<le> k" by simp
    have none: "bt ps (drop (Suc k) rs) (pos + Suc k) sl = None"
      using Suc.prems(4) [rule_format, of "Suc k"] \<open>j \<le> k\<close> by simp
    from \<open>j \<le> k\<close> Suc.prems have "bt_rep lo ps rs pos sl k = Some res"
      by (intro Suc.IH) auto
    with none \<open>j \<le> k\<close> Suc.prems(2) show ?thesis by simp
  qed
qed

lemma bt_rep_exists:
  assumes "bt ps (drop j rs) (pos + j) sl \<noteq> None" and "lo \<le> j" and "j \<le> k"
  shows "bt_rep lo ps rs pos sl k \<noteq> None"
  using assms
proof (induction k)
  case 0
  then show ?case by auto
next
  case (Suc k)
  show ?case
  proof (cases "bt ps (drop (Suc k) rs) (pos + Suc k) sl")
    case None
    with Suc.prems have "j \<noteq> Suc k" by auto
    with Suc.prems have "j \<le> k" by simp
    with Suc.prems have "bt_rep lo ps rs pos sl k \<noteq> None" by (intro Suc.IH) auto
    with None \<open>j \<le> k\<close> Suc.prems(2) show ?thesis by simp
  qed simp
qed

lemma bt_Rep_Some:
  assumes "bt (Rep lo a # ps) rs pos sl = Some res"
  shows "\<exists>j. lo \<le> j \<and> j \<le> length (takeWhile (amatch a) rs) \<and>
             list_all (amatch a) (take j rs) \<and> bt ps (drop j rs) (pos + j) sl = Some res"
proof -
  let ?n = "length (takeWhile (amatch a) rs)"
  from assms have "lo \<le> ?n" and rep: "bt_rep lo ps rs pos sl ?n = Some res"
    by (auto simp: Let_def split: if_splits)
  then obtain j where "lo \<le> j" "j \<le> ?n" "bt ps (drop j rs) (pos + j) sl = Some res"
    using bt_rep_Some by blast
  moreover have "list_all (amatch a) (take j rs)"
  proof -
    have "take j rs = take j (takeWhile (amatch a) rs @ dropWhile (amatch a) rs)"
      by (simp only: takeWhile_dropWhile_id)
    also have "\<dots> = take j (takeWhile (amatch a) rs)"
      using \<open>j \<le> ?n\<close> by (simp del: takeWhile_dropWhile_id add: take_append)
    finally show ?thesis
      by (simp add: list_all_iff) (meson in_set_takeD set_takeWhileD)
  qed
  ultimately show ?thesis by blast
qed

lemma digit_runes:
  "list_all (amatch Digit) xs \<Longrightarrow> xs = asc (concat xs) \<and> list_all is_digit (concat xs)"
  by (induction xs) (auto simp: asc_def)

lemma takeWhile_digit_asc:
  "list_all is_digit a \<Longrightarrow> \<not> amatch Digit r \<Longrightarrow> takeWhile (amatch Digit) (asc a @ r # rs) = asc a"
  by (induction a) (auto simp: asc_def)

lemma card_pat_tail: "card_pat = Rep 0 AnyNotNL # card_tail"
  by (simp add: card_pat_def card_tail_def)

lemma amatch_digit_asc [simp]: "amatch Digit [c] \<longleftrightarrow> is_digit c"
  by simp

lemma bt_Rep_digits:
  assumes "digits A" and "\<not> amatch Digit r"
    and "bt ps (r # rs) (pos + length A) sl = Some res"
  shows "bt (Rep 1 Digit # ps) (asc A @ r # rs) pos sl = Some res"
proof -
  have tw: "takeWhile (amatch Digit) (asc A @ r # rs) = asc A"
    using assms(1,2) by (simp add: digits_def takeWhile_digit_asc)
  have "bt_rep 1 ps (asc A @ r # rs) pos sl (length A) = Some res"
    using assms by (intro bt_rep_first [where j = "length A"]) (auto simp: digits_def Suc_le_eq)
  with tw assms(1) show ?thesis by (simp add: Let_def digits_def Suc_le_eq)
qed

lemma bt_Rep_digits_digit:
  assumes "digits T" and "is_digit d" and "\<not> amatch Digit r"
    and "bt ps ([d] # r # rs) (pos + length T) sl = Some res"
    and "bt ps (r # rs) (pos + Suc (length T)) sl = None"
  shows "bt (Rep 1 Digit # ps) (asc T @ [d] # r # rs) pos sl = Some res"
proof -
  have tw: "takeWhile (amatch Digit) (asc T @ [d] # r # rs) = asc T @ [[d]]"
    using assms(1,2,3) takeWhile_digit_asc [of "T @ [d]" r rs]
    by (simp add: digits_def asc_def)
  have "bt_rep 1 ps (asc T @ [d] # r # rs) pos sl (Suc (length T)) = Some res"
  proof (rule bt_rep_first [where j = "length T"])
    show "bt ps (drop (length T) (asc T @ [d] # r # rs)) (pos + length T) sl = Some res"
      using assms(4) by simp
    show "\<forall>i. length T < i \<and> i \<le> Suc (length T) \<longrightarrow>
            bt ps (drop i (asc T @ [d] # r # rs)) (pos + i) sl = None"
      using assms(5) by (auto simp: le_Suc_eq)
  qed (use assms(1) in \<open>auto simp: digits_def Suc_le_eq\<close>)
  with tw assms(1) show ?thesis by (simp add: Let_def digits_def)
qed

lemma digit_not_nl [simp]: "is_digit d \<Longrightarrow> d \<noteq> CHR 0x0A"
  by (auto simp: is_digit_def byte_def)

lemma bt_tail_end:
  "amatch AnyNotNL c \<Longrightarrow>
   bt (Close 2 # One AnyNotNL # lits ''html'' @ [EndText]) (c # asc ''html'') q sl =
     Some (q + 5, sl[5 := Some q])"
  by (simp add: bt_lits asc_def)

lemma bt_tail_T:
  assumes "digits T" and "c \<noteq> [CHR 0x0A]"
  shows "bt (Rep 1 Digit # Close 2 # One AnyNotNL # lits ''html'' @ [EndText]) (asc T @ c # asc ''html'') q sl =
           Some (q + length T + 5, sl[5 := Some (q + length T)])"
proof (cases "amatch Digit c")
  case False
  show ?thesis
    using assms False bt_tail_end [of c "q + length T" sl] by (intro bt_Rep_digits) simp_all
next
  case True
  then obtain d where c: "c = [d]" and d: "is_digit d" by auto
  have h: "asc ''html'' = [CHR ''h''] # asc ''tml''" by (simp add: asc_def)
  have "bt (Rep 1 Digit # Close 2 # One AnyNotNL # lits ''html'' @ [EndText])
          (asc T @ [d] # [CHR ''h''] # asc ''tml'') q sl = Some (q + length T + 5, sl[5 := Some (q + length T)])"
  proof (rule bt_Rep_digits_digit [OF assms(1) d])
    show "bt (Close 2 # One AnyNotNL # lits ''html'' @ [EndText]) ([d] # [CHR ''h''] # asc ''tml'')
            (q + length T) sl = Some (q + length T + 5, sl[5 := Some (q + length T)])"
      using bt_tail_end [of "[d]" "q + length T" sl] d by (simp add: h)
    show "bt (Close 2 # One AnyNotNL # lits ''html'' @ [EndText]) ([CHR ''h''] # asc ''tml'')
            (q + Suc (length T)) sl = None"
      by (simp add: bt_lits asc_def)
  qed simp
  then show ?thesis by (simp add: c h)
qed

lemma bt_card_tail_shape:
  assumes "digits A" and "digits T" and "c \<noteq> [CHR 0x0A]"
  shows "bt card_tail (card_shape A T c) pos sl =
           Some (pos + length A + length T + 17,
                 sl[2 := Some (pos + 7), 3 := Some (pos + length A + 7),
                    4 := Some (pos + length A + 12), 5 := Some (pos + length A + length T + 12)])"
proof -
  let ?sA = "sl[2 := Some (pos + 7)]"
  let ?sT = "?sA[3 := Some (pos + length A + 7), 4 := Some (pos + length A + 12)]"
  have T: "bt (Rep 1 Digit # Close 2 # One AnyNotNL # lits ''html'' @ [EndText]) (asc T @ c # asc ''html'')
             (pos + length A + 12) ?sT =
           Some (pos + length A + length T + 17, ?sT[5 := Some (pos + length A + length T + 12)])"
    using bt_tail_T [OF assms(2,3), of "pos + length A + 12" ?sT] by (simp add: add_ac)
  have slash: "asc ''/card'' = [CHR ''/''] # asc ''card''" by (simp add: asc_def)
  have "bt (Rep 1 Digit # Close 1 # lits ''/card'' @ Open 2 # Rep 1 Digit # Close 2 # One AnyNotNL #
            lits ''html'' @ [EndText]) (asc A @ [CHR ''/''] # asc ''card'' @ asc T @ c # asc ''html'')
            (pos + 7) ?sA =
        Some (pos + length A + length T + 17, ?sT[5 := Some (pos + length A + length T + 12)])"
  proof (rule bt_Rep_digits [OF assms(1)])
    show "bt (Close 1 # lits ''/card'' @ Open 2 # Rep 1 Digit # Close 2 # One AnyNotNL # lits ''html'' @ [EndText])
            ([CHR ''/''] # asc ''card'' @ asc T @ c # asc ''html'') (pos + 7 + length A) ?sA =
          Some (pos + length A + length T + 17, ?sT[5 := Some (pos + length A + length T + 12)])"
      using T by (simp add: bt_lits slash [symmetric] add_ac numeral_3_eq_3 [symmetric] numeral_2_eq_2 [symmetric]
          del: bt.simps(3))
  qed simp
  then show ?thesis
    by (simp add: card_tail_def card_shape_def bt_lits slash add_ac numeral_3_eq_3 [symmetric] numeral_2_eq_2 [symmetric]
        del: bt.simps(3))
qed

lemma digit_run:
  assumes "list_all (amatch Digit) (take j xs)" and "1 \<le> j"
    and "j \<le> length (takeWhile (amatch Digit) xs)"
  shows "\<exists>A. take j xs = asc A \<and> digits A"
proof -
  have "j \<le> length xs" using assms(3) length_takeWhile_le [of "amatch Digit" xs] by linarith
  with assms(2) have "take j xs \<noteq> []" by auto
  moreover from digit_runes [OF assms(1)]
  have "take j xs = asc (concat (take j xs))" and "list_all is_digit (concat (take j xs))" by auto
  ultimately show ?thesis by (metis asc_def digits_def list.map_disc_iff)
qed

lemma bt_card_tail_sound:
  assumes "bt card_tail rs pos sl = Some res"
  shows "\<exists>A T c. rs = card_shape A T c \<and> digits A \<and> digits T \<and> c \<noteq> [CHR 0x0A]"
proof -
  let ?P2 = "Close 2 # One AnyNotNL # lits ''html'' @ [EndText]"
  let ?P1 = "Close 1 # lits ''/card'' @ Open 2 # Rep 1 Digit # ?P2"
  let ?rs1 = "drop (length ''/cards/'') rs"
  from assms have r0: "take (length ''/cards/'') rs = asc ''/cards/''"
    and "\<exists>q sl1. bt (Rep 1 Digit # ?P1) ?rs1 q sl1 = Some res"
    by (auto simp: card_tail_def bt_lits split: if_splits simp del: bt.simps(3))
  then obtain q1 sl1 where b1: "bt (Rep 1 Digit # ?P1) ?rs1 q1 sl1 = Some res" by blast
  from bt_Rep_Some [OF b1] obtain j1 where j1: "1 \<le> j1" "j1 \<le> length (takeWhile (amatch Digit) ?rs1)"
    "list_all (amatch Digit) (take j1 ?rs1)" and b2: "bt ?P1 (drop j1 ?rs1) (q1 + j1) sl1 = Some res"
    by blast
  from digit_run [OF j1(3,1,2)] obtain A where A: "take j1 ?rs1 = asc A" "digits A" by blast
  let ?rs2 = "drop j1 ?rs1"
  let ?rs3 = "drop (length ''/card'') ?rs2"
  from b2 have r2: "take (length ''/card'') ?rs2 = asc ''/card''"
    and "\<exists>sl2 q. bt (Rep 1 Digit # ?P2) ?rs3 q sl2 = Some res"
    by (auto simp: bt_lits split: if_splits simp del: bt.simps(3))
  then obtain sl2 q where b3: "bt (Rep 1 Digit # ?P2) ?rs3 q sl2 = Some res" by blast
  from bt_Rep_Some [OF b3] obtain j2 where j2: "1 \<le> j2" "j2 \<le> length (takeWhile (amatch Digit) ?rs3)"
    "list_all (amatch Digit) (take j2 ?rs3)" and b4: "bt ?P2 (drop j2 ?rs3) (q + j2) sl2 = Some res"
    by blast
  from digit_run [OF j2(3,1,2)] obtain T where T: "take j2 ?rs3 = asc T" "digits T" by blast
  from b4 obtain c rs4 where c: "drop j2 ?rs3 = c # rs4" "c \<noteq> [CHR 0x0A]"
    and r4: "take (length ''html'') rs4 = asc ''html''" and r5: "drop (length ''html'') rs4 = []"
    by (auto simp: bt_lits split: list.splits if_splits)
  have "rs4 = asc ''html''" using r4 r5 by (metis append_Nil2 append_take_drop_id)
  then have "?rs3 = asc T @ [c] @ asc ''html''"
    using T(1) c(1) by (metis append_Cons append_Nil append_take_drop_id)
  then have "?rs2 = asc ''/card'' @ asc T @ [c] @ asc ''html''"
    using r2 by (metis append_take_drop_id)
  then have "?rs1 = asc A @ asc ''/card'' @ asc T @ [c] @ asc ''html''"
    using A(1) by (metis append_take_drop_id)
  then have "rs = card_shape A T c"
    using r0 by (metis append_take_drop_id card_shape_def)
  with A(2) T(2) c(2) show ?thesis by blast
qed

lemma asc_inj: "asc a = asc b \<Longrightarrow> a = b"
  by (metis concat_asc)

lemma nslash_asc_digits:
  "list_all is_digit A \<Longrightarrow> filter (\<lambda>r. r = ''/'') (asc A) = []"
  by (induction A) (auto simp: asc_def)

lemma card_shape_inj:
  assumes "card_shape A T c = card_shape A' T' c'"
    and "digits A" and "digits A'"
  shows "A = A' \<and> T = T' \<and> c = c'"
proof -
  have slash: "asc ''/card'' = [CHR ''/''] # asc ''card''" by (simp add: asc_def)
  from assms(1) have e: "asc A @ [CHR ''/''] # asc ''card'' @ asc T @ [c] @ asc ''html'' =
                          asc A' @ [CHR ''/''] # asc ''card'' @ asc T' @ [c'] @ asc ''html''"
    by (simp add: card_shape_def slash)
  have "takeWhile (amatch Digit) (asc A @ [CHR ''/''] # asc ''card'' @ asc T @ [c] @ asc ''html'') = asc A"
    using assms(2) by (intro takeWhile_digit_asc) (auto simp: digits_def)
  moreover have "takeWhile (amatch Digit) (asc A' @ [CHR ''/''] # asc ''card'' @ asc T' @ [c'] @ asc ''html'') = asc A'"
    using assms(3) by (intro takeWhile_digit_asc) (auto simp: digits_def)
  ultimately have A: "A = A'" using e by (metis asc_inj)
  with e have "(asc T @ [c]) @ asc ''html'' = (asc T' @ [c']) @ asc ''html''" by simp
  then have "asc T @ [c] = asc T' @ [c']" by (rule append_same_eq [THEN iffD1])
  with A show ?thesis by (auto dest: asc_inj)
qed

lemma card_shape_slashes:
  assumes "digits A" and "digits T"
  shows "length (filter (\<lambda>r. r = ''/'') (card_shape A T c)) = 3 + (if c = ''/'' then 1 else 0)"
  using assms by (simp add: card_shape_def nslash_asc_digits digits_def) (simp add: asc_def)

lemma card_shape_suffix_unique_le:
  assumes e: "xs @ card_shape A T c = ys @ card_shape A' T' c'"
    and le: "length xs \<le> length ys"
    and d: "digits A" "digits T" "digits A'" "digits T'"
  shows "xs = ys"
proof -
  from e le obtain Z where ys: "ys = xs @ Z" and X: "card_shape A T c = Z @ card_shape A' T' c'"
    by (auto simp: append_eq_append_conv_if) (metis append_take_drop_id)
  have "c = c'"
  proof -
    from X have "(asc ''/cards/'' @ asc A @ asc ''/card'' @ asc T @ [c]) @ asc ''html'' =
                 (Z @ asc ''/cards/'' @ asc A' @ asc ''/card'' @ asc T' @ [c']) @ asc ''html''"
      by (simp add: card_shape_def)
    then have "asc ''/cards/'' @ asc A @ asc ''/card'' @ asc T @ [c] =
               Z @ asc ''/cards/'' @ asc A' @ asc ''/card'' @ asc T' @ [c']"
      by (rule append_same_eq [THEN iffD1])
    then show ?thesis by (metis append_assoc last_snoc)
  qed
  have "length (filter (\<lambda>r. r = ''/'') Z) = 0"
    using arg_cong [OF X, of "\<lambda>xs. length (filter (\<lambda>r. r = ''/'') xs)"]
      card_shape_slashes [OF d(1,2), of c] card_shape_slashes [OF d(3,4), of c'] \<open>c = c'\<close>
    by simp
  moreover have "Z \<noteq> [] \<Longrightarrow> hd Z = ''/''"
    using X by (cases Z) (auto simp: card_shape_def asc_def)
  ultimately have "Z = []" by (cases Z) auto
  with ys show ?thesis by simp
qed

lemma card_shape_suffix_unique:
  assumes "xs @ card_shape A T c = ys @ card_shape A' T' c'"
    and "digits A" "digits T" "digits A'" "digits T'"
  shows "xs = ys \<and> A = A' \<and> T = T' \<and> c = c'"
proof -
  have "xs = ys"
  proof (cases "length xs \<le> length ys")
    case True
    from card_shape_suffix_unique_le [OF assms(1) True assms(2-5)] show ?thesis .
  next
    case False
    then have "length ys \<le> length xs" by simp
    from card_shape_suffix_unique_le [OF assms(1) [symmetric] this assms(4,5,2,3)] show ?thesis ..
  qed
  moreover from this assms(1) have "card_shape A T c = card_shape A' T' c'" by simp
  ultimately show ?thesis using card_shape_inj [OF _ assms(2,4)] by blast
qed

subsection \<open>Leftmost search\<close>

lemma search_Some:
  "search ps sl0 rs i = Some (j, e, sl) \<Longrightarrow>
     \<exists>k. j = i + k \<and> k \<le> length rs \<and> bt ps (drop k rs) j sl0 = Some (e, sl)"
proof (induction rs arbitrary: i)
  case Nil
  then show ?case by (auto split: option.splits)
next
  case (Cons r rs)
  show ?case
  proof (cases "bt ps (r # rs) i sl0")
    case None
    with Cons.prems have "search ps sl0 rs (Suc i) = Some (j, e, sl)" by simp
    from Cons.IH [OF this] obtain k where "j = Suc i + k" "k \<le> length rs"
      "bt ps (drop k rs) j sl0 = Some (e, sl)" by blast
    then show ?thesis by (intro exI [of _ "Suc k"]) simp
  next
    case (Some a)
    with Cons.prems show ?thesis by (cases a) auto
  qed
qed

lemma search_exists:
  "bt ps (drop k rs) (i + k) sl0 \<noteq> None \<Longrightarrow> k \<le> length rs \<Longrightarrow> search ps sl0 rs i \<noteq> None"
proof (induction rs arbitrary: i k)
  case Nil
  then show ?case by (auto split: option.splits)
next
  case (Cons r rs)
  show ?case
  proof (cases k)
    case 0
    with Cons.prems show ?thesis by (auto split: option.splits)
  next
    case (Suc k')
    with Cons.prems have "search ps sl0 rs (Suc i) \<noteq> None" by (intro Cons.IH [of k']) auto
    then show ?thesis by (auto split: option.splits)
  qed
qed

subsection \<open>The card pattern on byte strings\<close>

lemma digits_ascii: "list_all is_digit A \<Longrightarrow> ascii A"
  by (induction A) (auto simp: ascii_def is_digit_def)

lemma runes_card_bytes:
  assumes "digits A" and "digits T" and "one_rune c"
  shows "runes (p @ ''/cards/'' @ A @ ''/card'' @ T @ c @ ''html'') = runes p @ card_shape A T c"
proof -
  have "ascii A" "ascii T" using assms(1,2) by (simp_all add: digits_def digits_ascii)
  moreover have "ascii ''/cards/''" "ascii ''/card''" by (simp_all add: ascii_def byte_def)
  ultimately have asc_pre: "ascii (''/cards/'' @ A @ ''/card'' @ T)"
    by (simp only: ascii_append)
  have "runes (c @ ''html'') = runes c @ runes ''html''"
    by (rule runes_append_ascii) (simp add: byte_def)
  also have "\<dots> = [c] @ asc ''html''"
    using assms(3) runes_ascii [of "''html''" "[]"] by (simp add: one_rune_def ascii_def byte_def)
  finally have c: "runes (c @ ''html'') = [c] @ asc ''html''" .
  have "runes (p @ ''/cards/'' @ A @ ''/card'' @ T @ c @ ''html'') =
        runes p @ runes ((''/cards/'' @ A @ ''/card'' @ T) @ c @ ''html'')"
    by (simp add: runes_append_ascii byte_def)
  also have "\<dots> = runes p @ card_shape A T c"
    using asc_pre c by (simp only: runes_ascii) (simp add: card_shape_def asc_def)
  finally show ?thesis .
qed

lemma card_search:
  assumes "search card_pat sl0 rs 0 = Some (i, e, sl)"
  shows "\<exists>k A T c. k \<le> length rs \<and> drop k rs = card_shape A T c \<and> digits A \<and> digits T \<and>
                   c \<noteq> [CHR 0x0A] \<and> bt card_tail (card_shape A T c) k sl0 = Some (e, sl)"
proof -
  from search_Some [OF assms] have i: "i \<le> length rs"
    and b: "bt (Rep 0 AnyNotNL # card_tail) (drop i rs) i sl0 = Some (e, sl)"
    by (auto simp: card_pat_tail)
  from bt_Rep_Some [OF b] obtain j where j: "j \<le> length (takeWhile (amatch AnyNotNL) (drop i rs))"
    and bj: "bt card_tail (drop (i + j) rs) (i + j) sl0 = Some (e, sl)"
    by (auto simp: add.commute)
  have "i + j \<le> length rs"
    using i j length_takeWhile_le [of "amatch AnyNotNL" "drop i rs"] by simp
  moreover from bt_card_tail_sound [OF bj] obtain A T c where
    "drop (i + j) rs = card_shape A T c" "digits A" "digits T" "c \<noteq> [CHR 0x0A]" by blast
  ultimately show ?thesis using bj by auto
qed

lemma card_search_exists:
  assumes "runes s = R @ card_shape A T c" and "digits A" and "digits T" and "c \<noteq> [CHR 0x0A]"
  shows "search card_pat sl0 (runes s) 0 \<noteq> None"
proof (rule search_exists [where k = "length R"])
  let ?X = "card_shape A T c"
  have "bt card_tail (drop 0 ?X) (length R + 0) sl0 \<noteq> None"
    using bt_card_tail_shape [OF assms(2-4)] by simp
  then have "bt_rep 0 card_tail ?X (length R) sl0 (length (takeWhile (amatch AnyNotNL) ?X)) \<noteq> None"
    by (intro bt_rep_exists [where j = 0]) auto
  then show "bt card_pat (drop (length R) (runes s)) (0 + length R) sl0 \<noteq> None"
    using assms(1) by (simp add: card_pat_tail Let_def)
qed (use assms(1) in simp)

lemma card_tokens_found:
  assumes "card_tokens s \<noteq> []"
  shows "\<exists>i e sl. search card_pat (replicate 6 None) (runes s) 0 = Some (i, e, sl) \<and>
           card_tokens s = map (slot_text (runes s) (sl[0 := Some i, 1 := Some e])) [0..<3]"
  using assms
  by (auto simp: card_tokens_def find_string_submatch_def Let_def numeral_eq_Suc
           split: option.splits)

lemma card_slots:
  assumes "digits A" and "digits T" and "c \<noteq> [CHR 0x0A]"
    and "search card_pat (replicate 6 None) (R @ card_shape A T c) 0 = Some (i, e, sl)"
  shows "slot_text (R @ card_shape A T c) (sl[0 := Some i, 1 := Some e]) 1 = A \<and>
         slot_text (R @ card_shape A T c) (sl[0 := Some i, 1 := Some e]) 2 = T"
proof -
  let ?rs = "R @ card_shape A T c"
  let ?sl0 = "replicate 6 None :: slots"
  from card_search [OF assms(4)] obtain k A' T' c' where k: "k \<le> length ?rs"
    "drop k ?rs = card_shape A' T' c'" "digits A'" "digits T'" "c' \<noteq> [CHR 0x0A]"
    and bk: "bt card_tail (card_shape A' T' c') k ?sl0 = Some (e, sl)" by blast
  have "take k ?rs @ card_shape A' T' c' = R @ card_shape A T c"
    using k(2) by (metis append_take_drop_id)
  from card_shape_suffix_unique [OF this k(3,4) assms(1,2)]
  have eqs: "take k ?rs = R" "A' = A" "T' = T" "c' = c" by auto
  have "length (take k ?rs) = k" using k(1) by (simp only: length_take min.absorb1)
  with eqs(1) have kR: "k = length R" by simp
  have "Some (e, sl) = Some (length R + length A + length T + 17,
                 ?sl0[2 := Some (length R + 7), 3 := Some (length R + length A + 7),
                      4 := Some (length R + length A + 12),
                      5 := Some (length R + length A + length T + 12)])"
    using bt_card_tail_shape [OF assms(1-3), of "length R" ?sl0] bk eqs kR by simp
  then have sl: "sl = ?sl0[2 := Some (length R + 7), 3 := Some (length R + length A + 7),
                      4 := Some (length R + length A + 12),
                      5 := Some (length R + length A + length T + 12)]" by simp
  have dA: "drop (length R + 7) ?rs = asc A @ asc ''/card'' @ asc T @ [c] @ asc ''html''"
    by (simp add: card_shape_def)
  have dT: "drop (length R + length A + 12) ?rs = asc T @ [c] @ asc ''html''"
    by (simp add: card_shape_def)
  have "slot_text ?rs (sl[0 := Some i, 1 := Some e]) 1 = concat (take (length A) (drop (length R + 7) ?rs))"
    by (simp add: slot_text_def sl)
  moreover have "slot_text ?rs (sl[0 := Some i, 1 := Some e]) 2 = concat (take (length T) (drop (length R + length A + 12) ?rs))"
    by (simp add: slot_text_def sl)
  ultimately show ?thesis by (simp only: dA dT) simp
qed

lemma card_tokens_match:
  assumes "digits A" and "digits T" and "one_rune c" and "c \<noteq> [CHR 0x0A]"
  shows "\<exists>m. card_tokens (p @ ''/cards/'' @ A @ ''/card'' @ T @ c @ ''html'') = [m, A, T]"
proof -
  let ?s = "p @ ''/cards/'' @ A @ ''/card'' @ T @ c @ ''html''"
  have rs: "runes ?s = runes p @ card_shape A T c" by (rule runes_card_bytes [OF assms(1-3)])
  have "search card_pat (replicate (2 * Suc 2) None) (runes ?s) 0 \<noteq> None"
    using card_search_exists [OF rs assms(1,2,4)] .
  then have "card_tokens ?s \<noteq> []"
    by (auto simp: card_tokens_def find_string_submatch_def Let_def split: option.splits)
  from card_tokens_found [OF this] obtain i e sl where
    S: "search card_pat (replicate 6 None) (runes ?s) 0 = Some (i, e, sl)"
    and tok: "card_tokens ?s = map (slot_text (runes ?s) (sl[0 := Some i, 1 := Some e])) [0..<3]"
    by blast
  have S': "search card_pat (replicate 6 None) (runes p @ card_shape A T c) 0 = Some (i, e, sl)"
    using S by (simp only: rs)
  note st = card_slots [OF assms(1,2,4) S']
  have u: "[0..<3] = [0::nat, 1, 2]" by (simp add: upt_rec)
  have "card_tokens ?s = [slot_text (runes ?s) (sl[0 := Some i, 1 := Some e]) 0, A, T]"
    using st by (simp only: tok u list.map rs)
  then show ?thesis by blast
qed

lemma card_tokens_only:
  assumes "card_tokens s \<noteq> []"
  shows "\<exists>p A T c. s = p @ ''/cards/'' @ A @ ''/card'' @ T @ c @ ''html'' \<and>
                   digits A \<and> digits T \<and> one_rune c \<and> c \<noteq> [CHR 0x0A]"
proof -
  from card_tokens_found [OF assms] obtain i e sl where
    S: "search card_pat (replicate 6 None) (runes s) 0 = Some (i, e, sl)" by blast
  from card_search [OF S] obtain k A T c where k: "k \<le> length (runes s)"
    "drop k (runes s) = card_shape A T c" "digits A" "digits T" "c \<noteq> [CHR 0x0A]" by blast
  have "s = concat (take k (runes s)) @ concat (card_shape A T c)"
    by (metis k(2) append_take_drop_id concat_append concat_runes)
  then have s: "s = concat (take k (runes s)) @ ''/cards/'' @ A @ ''/card'' @ T @ c @ ''html''"
    by (simp add: card_shape_def)
  have "c \<in> set (runes s)"
    using k(2) by (metis card_shape_def in_set_dropD list.set_intros(1) Un_iff set_append)
  then have "one_rune c" by (rule runes_one_rune)
  with s k(3-5) show ?thesis by blast
qed

lemma card_tokens_digits:
  assumes "card_tokens s \<noteq> []"
  shows "\<exists>m A T. card_tokens s = [m, A, T] \<and> digits A \<and> digits T"
proof -
  from card_tokens_only [OF assms] obtain p A T c where
    s: "s = p @ ''/cards/'' @ A @ ''/card'' @ T @ c @ ''html''"
    and d: "digits A" "digits T" "one_rune c" "c \<noteq> [CHR 0x0A]" by blast
  from card_tokens_match [OF d] s d(1,2) show ?thesis by blast
qed

text \<open>
  C3: the identifiers are extracted exactly: an href made of any prefix, then
  \<open>/cards/A/card\<close>, then \<open>T\<close>, one rune other than a newline, and \<open>html\<close>,
  with \<open>A\<close> and \<open>T\<close> non-empty digit strings, yields the tokens
  \<open>[whole, A, T]\<close>.
\<close>

theorem card_tokens_groups:
  assumes "digits A" and "digits T" and "one_rune c" and "c \<noteq> [CHR 0x0A]"
  shows "\<exists>m. card_tokens (p @ ''/cards/'' @ A @ ''/card'' @ T @ c @ ''html'') = [m, A, T]"
  using assms by (rule card_tokens_match)

text \<open>
  C4: conversely, a non-empty result means the href has that shape: every anchor
  the code keeps ends in \<open>/cards/A/card\<close>, \<open>T\<close>, one rune and \<open>html\<close>.
\<close>

theorem card_tokens_shape:
  assumes "card_tokens s \<noteq> []"
  shows "\<exists>p A T c. s = p @ ''/cards/'' @ A @ ''/card'' @ T @ c @ ''html'' \<and>
                   digits A \<and> digits T \<and> one_rune c \<and> c \<noteq> [CHR 0x0A]"
  using assms by (rule card_tokens_only)

theorem card_tokens_groups_witness:
  "digits ''000879'' \<and> digits ''127'' \<and> one_rune ''.'' \<and> ''.'' \<noteq> [CHR 0x0A] \<and>
   (\<exists>m. card_tokens (''https://www.aozora.gr.jp'' @ ''/cards/'' @ ''000879'' @ ''/card'' @ ''127'' @ ''.'' @ ''html'')
        = [m, ''000879'', ''127''])"
proof -
  have h: "digits ''000879''" "digits ''127''" "one_rune ''.''" "''.'' \<noteq> [CHR 0x0A]"
    by (simp_all add: digits_def is_digit_def byte_def one_rune_def runes_ascii_Cons)
  show ?thesis using h card_tokens_groups [OF h] by blast
qed

theorem card_tokens_shape_witness:
  "card_tokens ''/cards/1/card2_html'' \<noteq> [] \<and>
   (\<exists>p A T c. ''/cards/1/card2_html'' = p @ ''/cards/'' @ A @ ''/card'' @ T @ c @ ''html'' \<and>
              digits A \<and> digits T \<and> one_rune c \<and> c \<noteq> [CHR 0x0A])"
proof -
  have h: "card_tokens ''/cards/1/card2_html'' \<noteq> []" by code_simp
  show ?thesis using h card_tokens_shape [OF h] by blast
qed

end
