(* ===== verification/Html.thy ===== *)
theory Html
  imports Prelude
begin

text \<open>
  The parsed HTML document and the goquery/cascadia selection calls of
  main.go: \<open>doc.Find(sel)\<close> (lines 40, 43, 80), \<open>.First()\<close> and \<open>.Text()\<close>
  (line 40), \<open>.Each\<close> (lines 43, 80), \<open>elem.AttrOr("href", "")\<close> (lines 44,
  81) and \<open>elem.Text()\<close> (line 85).  A document is the list of children of
  the document node.  \<open>Find\<close> visits the descendants of the document in
  pre-order and keeps the elements the selector matches; each visited element
  is located by its ancestors (nearest first) and its 1-based position among
  its parent's element children, which is what \<open>:nth-child\<close> counts.  The
  HTML parser itself (\<open>goquery.NewDocumentFromReader\<close>) is not modelled: the
  document is what it produced.  The lemmas characterise descendant
  selectors as ordered embeddings into the ancestor chain, the class
  selector as membership among the whitespace-separated words of the
  attribute, and the traversal's element numbering as \<open>:nth-child\<close>
  positions.
\<close>

datatype node =
    Elem string "(string \<times> string) list" "node list"   \<comment> \<open>tag, attributes in source order, children\<close>
  | Txt string
  | Other                                            \<comment> \<open>comment or doctype node\<close>

record einfo =
  tag :: string
  attrs :: "(string \<times> string) list"
  idx :: nat

type_synonym located = "einfo list \<times> einfo \<times> node list"

text \<open>Pre-order walk of a node list; \<open>k\<close> counts the element siblings already passed.\<close>

fun walk :: "einfo list \<Rightarrow> nat \<Rightarrow> node list \<Rightarrow> located list" where
  "walk anc k [] = []"
| "walk anc k (Elem t a cs # ns) =
     (let me = \<lparr>tag = t, attrs = a, idx = Suc k\<rparr>
      in (anc, me, cs) # walk (me # anc) 0 cs @ walk anc (Suc k) ns)"
| "walk anc k (Txt s # ns) = walk anc k ns"
| "walk anc k (Other # ns) = walk anc k ns"

section \<open>Selectors\<close>

datatype simple_sel =
    TypeSel string           \<comment> \<open>\<open>table\<close>\<close>
  | ClassSel string          \<comment> \<open>\<open>.download\<close>\<close>
  | AttrEq string string     \<comment> \<open>\<open>[summary=...]\<close>\<close>
  | NthChild nat             \<comment> \<open>\<open>:nth-child(n)\<close>\<close>

type_synonym compound = "simple_sel list"
type_synonym selector = "compound list"   \<comment> \<open>compounds joined by the descendant combinator, leftmost first\<close>

text \<open>
  cascadia's \<open>matchInclude\<close>: the attribute value split at the HTML
  whitespace characters contains the class name.
\<close>

definition is_html_space :: "char \<Rightarrow> bool" where
  "is_html_space c \<longleftrightarrow> c \<in> set [CHR '' '', CHR 0x09, CHR 0x0D, CHR 0x0A, CHR 0x0C]"

fun match_include :: "string \<Rightarrow> string \<Rightarrow> bool" where
  "match_include val s =
     (if s = [] then False
      else (let w = takeWhile (\<lambda>c. \<not> is_html_space c) s in
            if w = s then s = val
            else w = val \<or> match_include val (drop (Suc (length w)) s)))"

declare match_include.simps [simp del]

primrec smatch :: "simple_sel \<Rightarrow> einfo \<Rightarrow> bool" where
  "smatch (TypeSel t) e \<longleftrightarrow> tag e = t"
| "smatch (ClassSel c) e \<longleftrightarrow> list_ex (\<lambda>(k, v). k = ''class'' \<and> match_include c v) (attrs e)"
| "smatch (AttrEq k v) e \<longleftrightarrow> list_ex (\<lambda>(k', v'). k' = k \<and> v' = v) (attrs e)"
| "smatch (NthChild n) e \<longleftrightarrow> idx e = n"

definition cmatch :: "compound \<Rightarrow> einfo \<Rightarrow> bool" where
  "cmatch c e \<longleftrightarrow> list_all (\<lambda>s. smatch s e) c"

text \<open>
  cascadia's \<open>descendantSelector.Match\<close>: the last compound matches the
  element and the selector to its left matches some proper ancestor, searched
  from the parent upwards.  \<open>chain cs anc\<close> takes the remaining compounds
  nearest first.
\<close>

fun chain :: "compound list \<Rightarrow> einfo list \<Rightarrow> bool" where
  "chain [] anc = True"
| "chain (c # cs) [] = False"
| "chain (c # cs) (a # as) = ((cmatch c a \<and> chain cs as) \<or> chain (c # cs) as)"

definition sel_match :: "selector \<Rightarrow> located \<Rightarrow> bool" where
  "sel_match sel l =
     (case rev sel of [] \<Rightarrow> False
      | c # cs \<Rightarrow> cmatch c (fst (snd l)) \<and> chain cs (fst l))"

section \<open>Selections\<close>

text \<open>\<open>doc.Find(sel)\<close>: the matching elements among the document's descendants, in document order.\<close>

definition find_sel :: "node list \<Rightarrow> selector \<Rightarrow> located list" where
  "find_sel doc sel = filter (sel_match sel) (walk [] 0 doc)"

text \<open>\<open>Selection.Text()\<close>: the text nodes below the selected elements, concatenated.\<close>

fun text_of :: "node list \<Rightarrow> string" where
  "text_of [] = []"
| "text_of (Txt s # ns) = s @ text_of ns"
| "text_of (Elem t a cs # ns) = text_of cs @ text_of ns"
| "text_of (Other # ns) = text_of ns"

definition sel_text :: "located list \<Rightarrow> string" where
  "sel_text ls = concat (map (\<lambda>l. text_of (snd (snd l))) ls)"

definition sel_first :: "located list \<Rightarrow> located list" where
  "sel_first ls = take 1 ls"

text \<open>\<open>Selection.AttrOr(name, default)\<close>: the first attribute of that name of the first element.\<close>

definition attr_or :: "located list \<Rightarrow> string \<Rightarrow> string \<Rightarrow> string" where
  "attr_or ls name dflt =
     (case ls of [] \<Rightarrow> dflt
      | l # _ \<Rightarrow> (case map_of (attrs (fst (snd l))) name of None \<Rightarrow> dflt | Some v \<Rightarrow> v))"

section \<open>The three selectors of main.go\<close>

text \<open>The attribute value "author data" (sakka deeta in katakana) as its UTF-8 bytes.\<close>

definition sakka_data :: string where
  "sakka_data = map char_of [0xE4::nat, 0xBD, 0x9C, 0xE5, 0xAE, 0xB6, 0xE3, 0x83, 0x87,
                              0xE3, 0x83, 0xBC, 0xE3, 0x82, 0xBF]"

definition author_sel :: selector where
  "author_sel = [[TypeSel ''table'', AttrEq ''summary'' sakka_data],
                 [TypeSel ''tr'', NthChild 2], [TypeSel ''td'', NthChild 2]]"

definition download_sel :: selector where
  "download_sel = [[TypeSel ''table'', ClassSel ''download''], [TypeSel ''a'']]"

definition list_sel :: selector where
  "list_sel = [[TypeSel ''ol''], [TypeSel ''li''], [TypeSel ''a'']]"

section \<open>Reference notions for the selector lemmas\<close>

text \<open>
  The words of a class attribute, split at every HTML whitespace character
  (so consecutive spaces give empty words), and the tags of the element
  children of a node list in order.
\<close>

fun split_ws :: "string \<Rightarrow> string list" where
  "split_ws [] = [[]]"
| "split_ws (c # s) =
     (if is_html_space c then [] # split_ws s
      else (case split_ws s of e # es \<Rightarrow> (c # e) # es | [] \<Rightarrow> [[c]]))"

fun elem_tags :: "node list \<Rightarrow> string list" where
  "elem_tags [] = []"
| "elem_tags (Elem t a cs # ns) = t # elem_tags ns"
| "elem_tags (Txt s # ns) = elem_tags ns"
| "elem_tags (Other # ns) = elem_tags ns"

section \<open>Selector semantics\<close>

lemma chain_embedding:
  "chain cs anc \<longleftrightarrow> (\<exists>as'. subseq as' anc \<and> list_all2 cmatch cs as')"
proof (induction cs anc rule: chain.induct)
  case (1 anc)
  then show ?case by auto
next
  case (2 c cs)
  then show ?case by (auto dest: list_emb_Nil2)
next
  case (3 c cs a as)
  show ?case
  proof
    assume "chain (c # cs) (a # as)"
    then have "(cmatch c a \<and> chain cs as) \<or> chain (c # cs) as" by simp
    then show "\<exists>as'. subseq as' (a # as) \<and> list_all2 cmatch (c # cs) as'"
    proof
      assume "cmatch c a \<and> chain cs as"
      with "3.IH"(1) obtain as' where "subseq as' as" "list_all2 cmatch cs as'" by blast
      with \<open>cmatch c a \<and> chain cs as\<close> show ?thesis by (intro exI [of _ "a # as'"]) auto
    next
      assume "chain (c # cs) as"
      with "3.IH"(2) obtain as' where "subseq as' as" "list_all2 cmatch (c # cs) as'" by blast
      then show ?thesis by (intro exI [of _ as']) auto
    qed
  next
    assume "\<exists>as'. subseq as' (a # as) \<and> list_all2 cmatch (c # cs) as'"
    then obtain as' where e: "subseq as' (a # as)" and m: "list_all2 cmatch (c # cs) as'" by blast
    from m obtain b bs where as': "as' = b # bs" "cmatch c b" "list_all2 cmatch cs bs"
      by (auto simp: list_all2_Cons1)
    from e as' have "(b = a \<and> subseq bs as) \<or> subseq (b # bs) as"
      by (cases "b = a") (auto simp: subseq_Cons2_iff)
    then show "chain (c # cs) (a # as)"
    proof
      assume "b = a \<and> subseq bs as"
      with as' "3.IH"(1) show ?thesis by auto
    next
      assume "subseq (b # bs) as"
      with as' "3.IH"(2) show ?thesis by auto
    qed
  qed
qed
text \<open>
  C16: a descendant selector \<open>c1 ... cn c\<close> matches an element exactly when
  \<open>c\<close> matches the element and \<open>cn, ..., c1\<close> match a subsequence of its
  ancestors, nearest first: cascadia's recursive ancestor search is an
  ordered embedding into the ancestor chain.
\<close>

theorem sel_match_iff:
  "sel_match (sel @ [c]) (anc, me, cs) \<longleftrightarrow>
     cmatch c me \<and> (\<exists>as'. subseq as' anc \<and> list_all2 cmatch (rev sel) as')"
  by (simp add: sel_match_def chain_embedding)

lemma split_ws_word:
  "\<not> list_ex is_html_space w \<Longrightarrow> is_html_space c \<Longrightarrow> split_ws (w @ c # r) = w # split_ws r"
  by (induction w) auto

lemma split_ws_last: "\<not> list_ex is_html_space w \<Longrightarrow> split_ws w = [w]"
  by (induction w) auto

lemma match_include_words:
  "val \<noteq> [] \<Longrightarrow> match_include val s \<longleftrightarrow> val \<in> set (split_ws s)"
proof (induction val s rule: match_include.induct)
  case (1 val s)
  let ?w = "takeWhile (\<lambda>c. \<not> is_html_space c) s"
  show ?case
  proof (cases "s = []")
    case True
    with "1.prems" show ?thesis by (subst match_include.simps) simp
  next
    case ne: False
    show ?thesis
    proof (cases "?w = s")
      case True
      then have "\<not> list_ex is_html_space s"
        by (metis (mono_tags, lifting) list_ex_iff set_takeWhileD)
      then have "split_ws s = [s]" by (rule split_ws_last)
      moreover from True ne have "match_include val s \<longleftrightarrow> s = val"
        by (subst match_include.simps) simp
      ultimately show ?thesis by (simp add: eq_commute)
    next
      case False
      define w where "w = takeWhile (\<lambda>c. \<not> is_html_space c) s"
      define d where "d = dropWhile (\<lambda>c. \<not> is_html_space c) s"
      have sd: "s = w @ d" by (simp add: w_def d_def)
      have wne: "w \<noteq> s" using False by (simp add: w_def)
      have "d \<noteq> []"
      proof
        assume "d = []"
        with sd have "s = w" by simp
        with wne show False by simp
      qed
      then obtain c r where d: "d = c # r" by (cases d) auto
      have sp: "is_html_space c"
        using hd_dropWhile [OF \<open>d \<noteq> []\<close> [unfolded d_def]] d by (simp add: d_def)
      have nsp: "\<not> list_ex is_html_space w" by (auto simp: w_def list_ex_iff dest: set_takeWhileD)
      have r: "drop (Suc (length w)) s = r" using sd d by simp
      have sw: "split_ws s = w # split_ws r" using split_ws_word [OF nsp sp, of r] sd d by simp
      have "match_include val s \<longleftrightarrow> w = val \<or> match_include val r"
        using ne False r by (subst match_include.simps) (simp add: Let_def w_def, blast)
      also have "\<dots> \<longleftrightarrow> val \<in> set (split_ws s)"
        using "1.IH" [OF ne _ False] "1.prems" r sw by (auto simp: w_def)
      finally show ?thesis .
    qed
  qed
qed


lemma walk_anc: "l \<in> set (walk anc k ns) \<Longrightarrow> suffix anc (fst l)"
  by (induction anc k ns rule: walk.induct) (auto simp: Let_def dest: suffix_ConsD)

lemma walk_below: "l \<in> set (walk (me # anc) k ns) \<Longrightarrow> fst l \<noteq> anc"
  using walk_anc [of l "me # anc" k ns] by (auto dest: suffix_ConsD2 simp: suffix_def)

text \<open>
  C24: the class selector \<open>.download\<close> of line 43 matches an element exactly
  when the class name is one of the whitespace-separated words of one of its
  \<open>class\<close> attributes (cascadia's \<open>matchInclude\<close>).
\<close>

theorem class_sel_words:
  assumes "c \<noteq> []"
  shows "smatch (ClassSel c) e \<longleftrightarrow> list_ex (\<lambda>(k, v). k = ''class'' \<and> c \<in> set (split_ws v)) (attrs e)"
  using assms by (simp add: match_include_words)

theorem class_sel_words_witness:
  "''download'' \<noteq> [] \<and>
   (smatch (ClassSel ''download'') \<lparr>tag = ''table'', attrs = [(''class'', ''list download'')], idx = 3\<rparr> \<longleftrightarrow>
    list_ex (\<lambda>(k, v). k = ''class'' \<and> ''download'' \<in> set (split_ws v)) [(''class'', ''list download'')])"
  using class_sel_words [of "''download''" "\<lparr>tag = ''table'', attrs = [(''class'', ''list download'')], idx = 3\<rparr>"]
  by simp

text \<open>
  C25: the traversal behind \<open>Find\<close> numbers elements as \<open>:nth-child\<close>
  counts them: the elements located directly under a parent are its element
  children, in document order, with positions 1, 2, ... (text and comment
  nodes are not counted), and no deeper element is placed at that level.
\<close>

theorem walk_siblings:
  "map (\<lambda>l. (idx (fst (snd l)), tag (fst (snd l)))) (filter (\<lambda>l. fst l = anc) (walk anc k ns)) =
     zip [Suc k..<Suc k + length (elem_tags ns)] (elem_tags ns)"
proof (induction anc k ns rule: walk.induct)
  case (2 anc k t a cs ns)
  have "filter (\<lambda>l. fst l = anc) (walk (\<lparr>tag = t, attrs = a, idx = Suc k\<rparr> # anc) 0 cs) = []"
    using walk_below by (auto simp: filter_empty_conv)
  with "2.IH" show ?case by (simp add: Let_def upt_conv_Cons del: upt_Suc)
qed simp_all

end
