(* ===== verification/GoPath.thy ===== *)
theory GoPath
  imports Prelude
begin

text \<open>
  The Go standard-library string and slash-path functions that main.go calls:
  \<open>strings.HasSuffix\<close> (lines 45, 53), \<open>path.Ext\<close> (line 120), and
  \<open>path.Join\<close> / \<open>path.Dir\<close> (line 61), which both end in \<open>path.Clean\<close>.
  Each is written the way the Go library computes it: \<open>path.Clean\<close> is the
  byte loop over a read index, a lazily written output buffer and the
  \<open>dotdot\<close> backtracking limit, and \<open>path.Ext\<close> scans backwards from the
  end.  The lemmas characterise the string functions: \<open>has_suffix\<close> is the
  library's \<^const>\<open>suffix\<close>, and \<open>path_ext\<close> of a name is \<open>.txt\<close>
  exactly when the name ends in \<open>.txt\<close>.  The proofs about
  \<open>path.Clean\<close> are in \<open>PathClean\<close>.
\<close>

section \<open>strings.HasSuffix and strings.HasPrefix\<close>

definition has_suffix :: "bytes \<Rightarrow> bytes \<Rightarrow> bool" where
  "has_suffix s suf \<longleftrightarrow> length suf \<le> length s \<and> drop (length s - length suf) s = suf"

definition has_prefix :: "bytes \<Rightarrow> bytes \<Rightarrow> bool" where
  "has_prefix s pre \<longleftrightarrow> length pre \<le> length s \<and> take (length pre) s = pre"

section \<open>path.Ext\<close>

text \<open>
  \<^verbatim>\<open>for i := len(path) - 1; i >= 0 && path[i] != '/'; i-- {
        if path[i] == '.' { return path[i:] } }
    return ""\<close>
  The index is shifted by one (\<open>ext_scan p (Suc i)\<close> looks at \<open>p ! i\<close>) so
  that the loop is a primitive recursion.
\<close>

primrec ext_scan :: "bytes \<Rightarrow> nat \<Rightarrow> bytes" where
  "ext_scan p 0 = []"
| "ext_scan p (Suc i) =
     (if p ! i = CHR ''/'' then []
      else if p ! i = CHR ''.'' then drop i p
      else ext_scan p i)"

definition path_ext :: "bytes \<Rightarrow> bytes" where
  "path_ext p = ext_scan p (length p)"

section \<open>path.Clean\<close>

text \<open>
  The backtracking step of a \<open>..\<close> element:
  \<^verbatim>\<open>out.w--
    for out.w > dotdot && out.index(out.w) != '/' { out.w-- }\<close>
  \<open>clean_back buf dd w\<close> is the final \<open>out.w\<close> when the loop starts at \<open>w\<close>.
\<close>

function clean_back :: "bytes \<Rightarrow> nat \<Rightarrow> nat \<Rightarrow> nat" where
  "clean_back buf dd w = (if dd < w \<and> buf ! w \<noteq> CHR ''/'' then clean_back buf dd (w - 1) else w)"
  by pat_completeness auto
termination
  by (relation "measure (\<lambda>(buf, dd, w). w)") auto

declare clean_back.simps [simp del]

text \<open>
  The main loop of \<open>path.Clean\<close>; \<open>out\<close> is the lazy buffer's written prefix
  \<open>buf[:w]\<close>, \<open>dd\<close> the variable \<open>dotdot\<close>.  The four branches are the
  four cases of the Go \<open>switch\<close>: an empty element, a \<open>.\<close> element, a
  \<open>..\<close> element (backtrack, or append \<open>..\<close> to a relative path, or drop it at
  the root), and a real element copied up to the next slash.
\<close>

function clean_loop :: "bytes \<Rightarrow> bool \<Rightarrow> nat \<Rightarrow> bytes \<Rightarrow> nat \<Rightarrow> bytes" where
  "clean_loop p rooted r out dd =
     (if r < length p then
        if p ! r = CHR ''/'' then clean_loop p rooted (Suc r) out dd
        else if p ! r = CHR ''.'' \<and> (Suc r = length p \<or> p ! Suc r = CHR ''/'')
        then clean_loop p rooted (Suc r) out dd
        else if p ! r = CHR ''.'' \<and> p ! Suc r = CHR ''.'' \<and>
                (Suc (Suc r) = length p \<or> p ! Suc (Suc r) = CHR ''/'')
        then (if dd < length out
              then clean_loop p rooted (Suc (Suc r)) (take (clean_back out dd (length out - 1)) out) dd
              else if \<not> rooted
              then (let out' = (if 0 < length out then out @ ''/'' else out) @ ''..''
                    in clean_loop p rooted (Suc (Suc r)) out' (length out'))
              else clean_loop p rooted (Suc (Suc r)) out dd)
        else (let out' = (if (rooted \<and> length out \<noteq> 1) \<or> (\<not> rooted \<and> length out \<noteq> 0)
                          then out @ ''/'' else out);
                  elem = takeWhile (\<lambda>c. c \<noteq> CHR ''/'') (drop r p)
              in clean_loop p rooted (r + length elem) (out' @ elem) dd)
      else out)"
  by pat_completeness auto
termination
proof (relation "measure (\<lambda>(p, rooted, r, out, dd). length p - r)")
  fix p :: bytes and r :: nat and rooted :: bool and out x xa :: bytes and dd :: nat
  assume r: "r < length p" and nsl: "p ! r \<noteq> CHR ''/''"
    and xa: "xa = takeWhile (\<lambda>c. c \<noteq> CHR ''/'') (drop r p)"
  from r nsl xa have "xa \<noteq> []"
    by (simp add: takeWhile_eq_Nil_iff hd_drop_conv_nth)
  moreover from xa have "length xa \<le> length p - r"
    by (metis length_drop length_takeWhile_le)
  ultimately show "((p, rooted, r + length xa, x @ xa, dd), p, rooted, r, out, dd)
      \<in> measure (\<lambda>(p, rooted, r, out, dd). length p - r)"
    using r by (cases xa) auto
qed auto

declare clean_loop.simps [simp del]

definition path_clean :: "bytes \<Rightarrow> bytes" where
  "path_clean p =
     (if p = [] then ''.''
      else (let rooted = (p ! 0 = CHR ''/'');
                res = (if rooted then clean_loop p True 1 ''/'' 1 else clean_loop p False 0 [] 0)
            in if res = [] then ''.'' else res))"

section \<open>path.Split, path.Dir, path.Join\<close>

text \<open>\<open>strings.LastIndex(path, "/")\<close>, with -1 when there is no slash.\<close>

definition last_slash :: "bytes \<Rightarrow> int" where
  "last_slash p = (if CHR ''/'' \<in> set p
                   then int (length p - 1 - the (find (\<lambda>i. rev p ! i = CHR ''/'') [0..<length p]))
                   else -1)"

definition path_split :: "bytes \<Rightarrow> bytes \<times> bytes" where
  "path_split p = (let i = nat (last_slash p + 1) in (take i p, drop i p))"

definition path_dir :: "bytes \<Rightarrow> bytes" where
  "path_dir p = path_clean (fst (path_split p))"

text \<open>
  \<open>path.Join\<close>: the elements are joined with slashes, skipping empty
  elements before the first non-empty one, and the result is cleaned; an
  all-empty argument list gives the empty string.
\<close>

fun join_buf :: "bytes list \<Rightarrow> bytes \<Rightarrow> bytes" where
  "join_buf [] buf = buf"
| "join_buf (e # es) buf =
     join_buf es (if buf \<noteq> [] \<or> e \<noteq> [] then (if buf \<noteq> [] then buf @ ''/'' else buf) @ e else buf)"

definition path_join :: "bytes list \<Rightarrow> bytes" where
  "path_join es = (if sum_list (map length es) = 0 then [] else path_clean (join_buf es []))"

section \<open>Characteristic lemmas\<close>

lemma has_suffix_iff [go_simps]: "has_suffix s suf \<longleftrightarrow> suffix suf s"
proof
  assume "has_suffix s suf"
  then have "s = take (length s - length suf) s @ suf"
    by (metis append_take_drop_id has_suffix_def)
  then show "suffix suf s" by (metis suffix_def)
next
  assume "suffix suf s"
  then obtain q where "s = q @ suf" by (auto simp: suffix_def)
  then show "has_suffix s suf" by (simp add: has_suffix_def)
qed

lemma has_prefix_iff [go_simps]: "has_prefix s pre \<longleftrightarrow> prefix pre s"
  by (auto simp: has_prefix_def prefix_def)
     (metis append_take_drop_id)

text \<open>The backward scan of \<open>path.Ext\<close> passes over bytes that are neither a slash nor a dot.\<close>

lemma ext_scan_skip:
  assumes "\<forall>j. i \<le> j \<and> j < i + k \<longrightarrow> p ! j \<noteq> CHR ''/'' \<and> p ! j \<noteq> CHR ''.''"
  shows "ext_scan p (i + k) = ext_scan p i"
  using assms by (induction k) auto

lemma ext_scan_result:
  assumes "ext_scan p i = x" and "x \<noteq> []" and "i \<le> length p"
  shows "\<exists>j < i. p ! j = CHR ''.'' \<and> x = drop j p \<and>
           (\<forall>l. j < l \<and> l < i \<longrightarrow> p ! l \<noteq> CHR ''/'' \<and> p ! l \<noteq> CHR ''.'')"
  using assms
proof (induction i arbitrary: x)
  case 0
  then show ?case by simp
next
  case (Suc i)
  show ?case
  proof (cases "p ! i = CHR ''/'' \<or> p ! i = CHR ''.''")
    case True
    with Suc.prems show ?thesis by (auto intro!: exI [of _ i])
  next
    case False
    with Suc.prems have "ext_scan p i = x" by auto
    with Suc.IH Suc.prems obtain j where "j < i" "p ! j = CHR ''.''" "x = drop j p"
      "\<forall>l. j < l \<and> l < i \<longrightarrow> p ! l \<noteq> CHR ''/'' \<and> p ! l \<noteq> CHR ''.''"
      by auto
    with False show ?thesis by (auto intro!: exI [of _ j] simp: less_Suc_eq)
  qed
qed

lemma path_ext_dot:
  assumes "CHR ''/'' \<notin> set e" and "CHR ''.'' \<notin> set e"
  shows "path_ext (q @ CHR ''.'' # e) = CHR ''.'' # e"
proof -
  let ?p = "q @ CHR ''.'' # e"
  have "\<forall>j. Suc (length q) \<le> j \<and> j < Suc (length q) + length e \<longrightarrow>
          ?p ! j \<noteq> CHR ''/'' \<and> ?p ! j \<noteq> CHR ''.''"
  proof (intro allI impI)
    fix j
    assume j: "Suc (length q) \<le> j \<and> j < Suc (length q) + length e"
    then have "?p ! j = e ! (j - Suc (length q))"
      by (simp add: nth_append nth_Cons')
    moreover from j have "e ! (j - Suc (length q)) \<in> set e"
      by (intro nth_mem) arith
    ultimately show "?p ! j \<noteq> CHR ''/'' \<and> ?p ! j \<noteq> CHR ''.''"
      using assms by auto
  qed
  then have "ext_scan ?p (Suc (length q) + length e) = ext_scan ?p (Suc (length q))"
    by (rule ext_scan_skip)
  then show ?thesis by (simp add: path_ext_def)
qed

lemma path_ext_nonempty:
  assumes "path_ext p = x" and "x \<noteq> []"
  shows "\<exists>q e. p = q @ CHR ''.'' # e \<and> x = CHR ''.'' # e \<and> CHR ''/'' \<notin> set e \<and> CHR ''.'' \<notin> set e"
proof -
  from assms ext_scan_result [of p "length p" x] obtain j where
    j: "j < length p" "p ! j = CHR ''.''" "x = drop j p"
    and rest: "\<forall>l. j < l \<and> l < length p \<longrightarrow> p ! l \<noteq> CHR ''/'' \<and> p ! l \<noteq> CHR ''.''"
    by (auto simp: path_ext_def)
  from j have p: "p = take j p @ CHR ''.'' # drop (Suc j) p"
    by (metis Cons_nth_drop_Suc append_take_drop_id)
  have "CHR ''/'' \<notin> set (drop (Suc j) p) \<and> CHR ''.'' \<notin> set (drop (Suc j) p)"
    using rest by (auto simp: in_set_conv_nth)
  moreover from j have "x = CHR ''.'' # drop (Suc j) p"
    by (metis Cons_nth_drop_Suc)
  ultimately show ?thesis using p by blast
qed

lemma path_ext_eq_txt: "path_ext name = ''.txt'' \<longleftrightarrow> suffix ''.txt'' name"
proof
  assume "path_ext name = ''.txt''"
  from path_ext_nonempty [OF this] obtain q e where
    "name = q @ CHR ''.'' # e" and "''.txt'' = CHR ''.'' # e" by auto
  then show "suffix ''.txt'' name" by (auto simp: suffix_def)
next
  assume "suffix ''.txt'' name"
  then obtain q where "name = q @ CHR ''.'' # ''txt''" by (auto simp: suffix_def)
  then show "path_ext name = ''.txt''" by (simp add: path_ext_dot)
qed

text \<open>
  C15: the entry filter of extractText, \<open>path.Ext(file.Name) == ".txt"\<close>,
  holds exactly for the names that end in \<open>.txt\<close> (so the test is
  case-sensitive, and a file named \<open>dir/.txt\<close> qualifies).
\<close>

theorem path_ext_txt_iff: "path_ext name = ''.txt'' \<longleftrightarrow> suffix ''.txt'' name"
  by (rule path_ext_eq_txt)

end
