(* ===== verification/NetUrl.thy ===== *)
theory NetUrl
  imports GoPath
begin

text \<open>
  The part of Go's \<open>net/url\<close> that findAuthorAndZIP uses (main.go lines
  57-63): \<open>url.Parse\<close> of the detail-page URL, assignment of \<open>u.Path\<close>, and
  \<open>u.String()\<close>.  Parsing follows \<open>url.Parse\<close>/\<open>parse\<close>: the fragment is cut
  at the first \<open>#\<close>, control bytes are rejected, the scheme is read by
  \<open>getScheme\<close> and lower-cased, the query is cut at the first \<open>?\<close>, an
  authority follows \<open>//\<close>, and the path is percent-decoded (\<open>setPath\<close>),
  keeping the raw form only when it differs from the default encoding.
  Serialisation follows \<open>String\<close>/\<open>EscapedPath\<close>/\<open>escape\<close>.  Not modelled:
  validation and unescaping of the userinfo and the host (ports, IPv6
  literals, \<open>%\<close>-escapes in hosts), \<open>OmitHost\<close> and \<open>RawFragment\<close>.
  The lemmas prove \<open>unescape\<close> inverse to \<open>escape\<close>, give the escaped
  length exactly, and prove that \<open>url.Parse\<close> inverts \<open>URL.String\<close> on simple
  absolute URLs (\<open>simple_url\<close>).  They also characterise when
  \<open>unescape\<close> fails: some \<open>%\<close> is not followed by two hex digits.
\<close>

record url =
  scheme :: string
  opaque :: string
  user :: "string option"
  host :: string
  path :: string
  raw_path :: string
  force_query :: bool
  raw_query :: string
  fragment :: string

definition empty_url :: url where
  "empty_url = \<lparr>scheme = [], opaque = [], user = None, host = [], path = [], raw_path = [],
                force_query = False, raw_query = [], fragment = []\<rparr>"

section \<open>Escaping\<close>

datatype encoding = EncodePath | EncodeHost | EncodeFragment

definition is_alnum :: "char \<Rightarrow> bool" where
  "is_alnum c \<longleftrightarrow> is_alpha c \<or> is_digit c"

text \<open>\<open>shouldEscape(c, mode)\<close> for the three modes the model uses.\<close>

definition should_escape :: "char \<Rightarrow> encoding \<Rightarrow> bool" where
  "should_escape c mode =
     (if is_alnum c then False
      else if mode = EncodeHost \<and> (c \<in> set ''!$&()*+,;=:[]<>'' \<or> c = CHR 0x27 \<or> c = CHR 0x22) then False
      else if c \<in> set ''-_.~'' then False
      else if c \<in> set ''$&+,/:;=?@'' then
        (case mode of EncodePath \<Rightarrow> c = CHR ''?'' | EncodeFragment \<Rightarrow> False | EncodeHost \<Rightarrow> True)
      else if mode = EncodeFragment \<and> c \<in> set ''!()*'' then False
      else True)"

definition hex_upper :: "nat \<Rightarrow> char" where
  "hex_upper n = ''0123456789ABCDEF'' ! n"

definition escape :: "string \<Rightarrow> encoding \<Rightarrow> string" where
  "escape s mode =
     concat (map (\<lambda>c. if should_escape c mode
                      then [CHR ''%'', hex_upper (byte c div 16), hex_upper (byte c mod 16)]
                      else [c]) s)"

definition hex_val :: "char \<Rightarrow> nat option" where
  "hex_val c =
     (if is_digit c then Some (byte c - 48)
      else if 97 \<le> byte c \<and> byte c \<le> 102 then Some (byte c - 87)
      else if 65 \<le> byte c \<and> byte c \<le> 70 then Some (byte c - 55)
      else None)"

text \<open>\<open>unescape(s, encodePath)\<close>: percent-decoding; a \<open>%\<close> not followed by two hex digits is an error.\<close>

fun unescape :: "string \<Rightarrow> string option" where
  "unescape [] = Some []"
| "unescape (c # s) =
     (if c = CHR ''%'' then
        (case s of
           h # l # r \<Rightarrow>
             (case (hex_val h, hex_val l) of
                (Some a, Some b) \<Rightarrow> map_option (Cons (char_of (16 * a + b))) (unescape r)
              | _ \<Rightarrow> None)
         | _ \<Rightarrow> None)
      else map_option (Cons c) (unescape s))"

section \<open>Parsing\<close>

definition cut :: "string \<Rightarrow> char \<Rightarrow> string \<times> string" where
  "cut s c = (takeWhile (\<lambda>x. x \<noteq> c) s, drop (Suc (length (takeWhile (\<lambda>x. x \<noteq> c) s))) s)"

definition has_ctl :: "string \<Rightarrow> bool" where
  "has_ctl s \<longleftrightarrow> list_ex (\<lambda>c. byte c < 32 \<or> byte c = 127) s"

text \<open>\<open>getScheme\<close>: letters, then letters, digits, \<open>+ - .\<close> up to a colon.\<close>

fun get_scheme_loop :: "string \<Rightarrow> string \<Rightarrow> goerr + string \<times> string" where
  "get_scheme_loop acc [] = Inr ([], rev acc)"
| "get_scheme_loop acc (c # s) =
     (if is_alpha c then get_scheme_loop (c # acc) s
      else if is_digit c \<or> c \<in> set ''+-.'' then
        (if acc = [] then Inr ([], rev acc @ c # s) else get_scheme_loop (c # acc) s)
      else if c = CHR '':'' then
        (if acc = [] then Inl ''missing protocol scheme'' else Inr (rev acc, s))
      else Inr ([], rev acc @ c # s))"

definition to_lower :: "string \<Rightarrow> string" where
  "to_lower s = map (\<lambda>c. if 65 \<le> byte c \<and> byte c \<le> 90 then char_of (byte c + 32) else c) s"

definition set_path :: "url \<Rightarrow> string \<Rightarrow> goerr + url" where
  "set_path u p =
     (case unescape p of
        None \<Rightarrow> Inl ''invalid URL escape''
      | Some q \<Rightarrow> Inr (u\<lparr>path := q, raw_path := (if escape q EncodePath = p then [] else p)\<rparr>))"

definition parse_authority :: "url \<Rightarrow> string \<Rightarrow> url" where
  "parse_authority u a =
     (if CHR ''@'' \<in> set a
      then (let i = length a - Suc (length (takeWhile (\<lambda>c. c \<noteq> CHR ''@'') (rev a)))
            in u\<lparr>user := Some (take i a), host := drop (Suc i) a\<rparr>)
      else u\<lparr>host := a\<rparr>)"

definition parse_rest :: "url \<Rightarrow> string \<Rightarrow> goerr + url" where
  "parse_rest u rest =
     (if \<not> has_prefix rest ''/'' \<and> scheme u \<noteq> [] then Inr (u\<lparr>opaque := rest\<rparr>)
      else if \<not> has_prefix rest ''/'' \<and> CHR '':'' \<in> set (fst (cut rest CHR ''/''))
      then Inl ''first path segment in URL cannot contain colon''
      else if (scheme u \<noteq> [] \<or> \<not> has_prefix rest ''///'') \<and> has_prefix rest ''//''
      then (let a = takeWhile (\<lambda>c. c \<noteq> CHR ''/'') (drop 2 rest);
                p = drop (length a) (drop 2 rest)
            in set_path (parse_authority u a) p)
      else set_path u rest)"

definition parse :: "string \<Rightarrow> goerr + url" where
  "parse raw =
     (if has_ctl raw then Inl ''net/url: invalid control character in URL''
      else if raw = ''*'' then Inr (empty_url\<lparr>path := ''*''\<rparr>)
      else (case get_scheme_loop [] raw of
              Inl e \<Rightarrow> Inl e
            | Inr (sch, rest) \<Rightarrow>
                let u = empty_url\<lparr>scheme := to_lower sch\<rparr> in
                if has_suffix rest ''?'' \<and> length (filter (\<lambda>c. c = CHR ''?'') rest) = 1
                then parse_rest (u\<lparr>force_query := True\<rparr>) (butlast rest)
                else parse_rest (u\<lparr>raw_query := snd (cut rest CHR ''?'')\<rparr>) (fst (cut rest CHR ''?''))))"

text \<open>\<open>url.Parse\<close>: the fragment is cut off first and decoded on its own.\<close>

definition url_parse :: "string \<Rightarrow> goerr + url" where
  "url_parse raw =
     (let (u, frag) = cut raw CHR ''#'' in
      case parse u of
        Inl e \<Rightarrow> Inl e
      | Inr r \<Rightarrow> if frag = [] then Inr r
                 else (case unescape frag of None \<Rightarrow> Inl ''invalid URL escape''
                       | Some f \<Rightarrow> Inr (r\<lparr>fragment := f\<rparr>)))"

section \<open>Serialisation\<close>

text \<open>\<open>EscapedPath\<close>: the raw path when it is a valid encoding of the path, else the default encoding.\<close>

definition valid_encoded :: "string \<Rightarrow> bool" where
  "valid_encoded s \<longleftrightarrow>
     list_all (\<lambda>c. c \<in> set ''!$&()*+,;=:@[]%'' \<or> c = CHR 0x27 \<or> \<not> should_escape c EncodePath) s"

definition escaped_path :: "url \<Rightarrow> string" where
  "escaped_path u =
     (if raw_path u \<noteq> [] \<and> valid_encoded (raw_path u) \<and> unescape (raw_path u) = Some (path u)
      then raw_path u
      else if path u = ''*'' then ''*''
      else escape (path u) EncodePath)"

definition url_string :: "url \<Rightarrow> string" where
  "url_string u =
     (let s1 = (if scheme u \<noteq> [] then scheme u @ '':'' else []) in
      (if opaque u \<noteq> [] then s1 @ opaque u
       else (let s2 = s1 @ (if scheme u \<noteq> [] \<or> host u \<noteq> [] \<or> user u \<noteq> None then
                         (if host u \<noteq> [] \<or> path u \<noteq> [] \<or> user u \<noteq> None then ''//'' else []) @
                         (case user u of None \<Rightarrow> [] | Some ui \<Rightarrow> ui @ ''@'') @
                         escape (host u) EncodeHost
                       else []);
                 p = escaped_path u;
                 s3 = s2 @ (if p \<noteq> [] \<and> hd p \<noteq> CHR ''/'' \<and> host u \<noteq> [] then ''/'' else [])
             in s3 @ (if s3 = [] \<and> CHR '':'' \<in> set (fst (cut p CHR ''/'')) then ''./'' else []) @ p))
      @ (if force_query u \<or> raw_query u \<noteq> [] then ''?'' @ raw_query u else [])
      @ (if fragment u \<noteq> [] then ''#'' @ escape (fragment u) EncodeFragment else []))"


section \<open>Simple absolute URLs\<close>

text \<open>
  The URLs the program builds and prints: a lower-case scheme, a host of
  letters, digits, dots and hyphens, a rooted path, and no userinfo, opaque
  part, raw path, query or fragment.
\<close>

definition is_lower :: "char \<Rightarrow> bool" where
  "is_lower c \<longleftrightarrow> 97 \<le> byte c \<and> byte c \<le> 122"

definition host_char :: "char \<Rightarrow> bool" where
  "host_char c \<longleftrightarrow> is_alnum c \<or> c = CHR ''.'' \<or> c = CHR ''-''"

definition simple_url :: "url \<Rightarrow> bool" where
  "simple_url u \<longleftrightarrow>
     scheme u \<noteq> [] \<and> list_all is_lower (scheme u) \<and> opaque u = [] \<and> user u = None \<and>
     list_all host_char (host u) \<and> path u \<noteq> [] \<and> hd (path u) = CHR ''/'' \<and> raw_path u = [] \<and>
     \<not> force_query u \<and> raw_query u = [] \<and> fragment u = []"

text \<open>A \<open>%\<close> at position \<open>i\<close> that does not start a two-hex-digit escape.\<close>

definition bad_escape_at :: "string \<Rightarrow> nat \<Rightarrow> bool" where
  "bad_escape_at s i \<longleftrightarrow>
     s ! i = CHR ''%'' \<and> (length s \<le> i + 2 \<or> hex_val (s ! (i + 1)) = None \<or> hex_val (s ! (i + 2)) = None)"

section \<open>Escaping and unescaping\<close>

text \<open>
  \<open>escape\<close> and \<open>unescape\<close> are inverse: every byte \<open>escape\<close> leaves alone is
  not \<open>%\<close>, and every escaped byte is written as two upper-case hex digits
  that \<open>unhex\<close> reads back.  A path printed by \<open>EscapedPath\<close> in its default
  form therefore parses back to the same path with no raw form.
\<close>

lemma hex_val_upper: "n < 16 \<Longrightarrow> hex_val (hex_upper n) = Some n"
  by (auto simp: numeral_eq_Suc less_Suc_eq hex_upper_def hex_val_def is_digit_def byte_def)

lemma percent_escaped [simp]: "should_escape CHR ''%'' mode"
  by (cases mode) (simp_all add: should_escape_def is_alnum_def is_alpha_def is_digit_def byte_def)

lemma unescape_escape: "unescape (escape s mode) = Some s"
proof (induction s)
  case Nil
  then show ?case by (simp add: escape_def)
next
  case (Cons c s)
  have e: "escape (c # s) mode =
             (if should_escape c mode then [CHR ''%'', hex_upper (byte c div 16), hex_upper (byte c mod 16)]
              else [c]) @ escape s mode"
    by (simp add: escape_def)
  have b: "byte c < 256" by (simp add: byte_def)
  then have "byte c div 16 < 16" "byte c mod 16 < 16" by simp_all
  moreover have "char_of (16 * (byte c div 16) + byte c mod 16) = c"
    by (simp add: byte_def)
  ultimately show ?case using Cons.IH e
    by (auto simp: hex_val_upper)
qed

lemma cut_notin:
  assumes "c \<notin> set s" shows "cut s c = (s, [])"
proof -
  from assms have "takeWhile (\<lambda>x. x \<noteq> c) s = s" by (auto simp: takeWhile_eq_all_conv)
  then show ?thesis unfolding cut_def by (simp only:) simp
qed

lemma unescape_plain: "CHR ''%'' \<notin> set s \<Longrightarrow> unescape s = Some s"
  by (induction s) auto

lemma escape_id: "list_all (\<lambda>c. \<not> should_escape c mode) s \<Longrightarrow> escape s mode = s"
  by (induction s) (simp_all add: escape_def)

lemma set_path_plain:
  "CHR ''%'' \<notin> set p \<Longrightarrow> list_all (\<lambda>c. \<not> should_escape c EncodePath) p \<Longrightarrow>
     set_path u p = Inr (u\<lparr>path := p, raw_path := []\<rparr>)"
  by (simp add: set_path_def unescape_plain escape_id)

lemma path_chars_list: "list_all (\<lambda>c. \<not> should_escape c EncodePath) ''/.acdhlmrst''"
  by (simp add: should_escape_def is_alnum_def is_alpha_def byte_def)

lemma path_chars_safe: "c \<in> set ''/.acdhlmrst'' \<Longrightarrow> should_escape c EncodePath = False"
  using path_chars_list unfolding list_all_iff by blast

lemma digit_path_safe:
  "list_all is_digit A \<Longrightarrow> list_all (\<lambda>c. \<not> should_escape c EncodePath) A"
  by (induction A) (auto simp: should_escape_def is_alnum_def)

lemma escape_slash: "escape (CHR ''/'' # r) EncodePath = CHR ''/'' # escape r EncodePath"
  by (simp add: escape_def should_escape_def is_alnum_def is_alpha_def is_digit_def byte_def)

lemma escape_length:
  "length (escape s mode) = length s + 2 * length (filter (\<lambda>c. should_escape c mode) s)"
  by (induction s) (simp_all add: escape_def)

text \<open>
  C18: the default path encoding round-trips through \<open>setPath\<close>: parsing a
  path that \<open>EscapedPath\<close> printed with \<open>escape\<close> gives back the path,
  and the URL keeps no \<open>RawPath\<close>.
\<close>

theorem set_path_escape: "set_path u (escape q EncodePath) = Inr (u\<lparr>path := q, raw_path := []\<rparr>)"
  by (simp add: set_path_def unescape_escape)

lemma should_escape_path:
  "should_escape c EncodePath \<longleftrightarrow> \<not> (is_alnum c \<or> c \<in> set ''-_.~$&+,/:;=@'')"
  by (auto simp: should_escape_def)

text \<open>
  C19: escaping a path writes every byte other than the unreserved ones
  (letters, digits, \<open>-_.~\<close>) and the path's sub-delimiters
  \<open>$&+,/:;=@\<close> as a three-byte \<open>%XY\<close> triple and leaves the others
  alone, so the escaped path is longer by exactly two bytes per such byte.
\<close>

theorem escape_path_length:
  "length (escape s EncodePath) =
     length s + 2 * length (filter (\<lambda>c. \<not> (is_alnum c \<or> c \<in> set ''-_.~$&+,/:;=@'')) s)"
  by (simp add: escape_length should_escape_path)

section \<open>Printing and parsing simple URLs\<close>

lemma hex_upper_set: "n < 16 \<Longrightarrow> hex_upper n \<in> set ''0123456789ABCDEF''"
  by (simp add: hex_upper_def del: set_simps)

lemma ctl_escaped:
  assumes "byte c < 32 \<or> byte c = 127"
  shows "should_escape c mode"
proof -
  have "\<not> is_alnum c" using assms by (auto simp: is_alnum_def is_alpha_def is_digit_def)
  moreover have "c \<notin> set ''!$&()*+,;=:[]<>-_.~/?@''" and "c \<noteq> CHR 0x27" and "c \<noteq> CHR 0x22"
    using assms by (auto simp: byte_def)
  ultimately show ?thesis by (simp add: should_escape_def)
qed

lemma hash_query_escaped: "should_escape CHR ''#'' EncodePath" "should_escape CHR ''?'' EncodePath"
  by (simp_all add: should_escape_def is_alnum_def is_alpha_def is_digit_def byte_def)

lemma escape_path_chars:
  assumes "c \<in> set (escape p EncodePath)"
  shows "c \<noteq> CHR ''#'' \<and> c \<noteq> CHR ''?'' \<and> \<not> (byte c < 32 \<or> byte c = 127)"
proof -
  from assms obtain d where d: "d \<in> set p"
    and c: "c \<in> set (if should_escape d EncodePath
                     then [CHR ''%'', hex_upper (byte d div 16), hex_upper (byte d mod 16)] else [d])"
    using assms unfolding escape_def set_concat set_map by blast
  show ?thesis
  proof (cases "should_escape d EncodePath")
    case True
    have "byte d < 256" by (simp add: byte_def)
    then have "c \<in> set ''%0123456789ABCDEF''"
      using c True hex_upper_set [of "byte d div 16"] hex_upper_set [of "byte d mod 16"] by auto
    then show ?thesis by (auto simp: byte_def)
  next
    case False
    with c have "c = d" by simp
    with False ctl_escaped [of d EncodePath] hash_query_escaped show ?thesis by auto
  qed
qed


lemma get_scheme_alpha:
  "list_all is_alpha sch \<Longrightarrow>
     get_scheme_loop acc (sch @ CHR '':'' # rest) =
       (if acc = [] \<and> sch = [] then Inl ''missing protocol scheme'' else Inr (rev acc @ sch, rest))"
  by (induction sch arbitrary: acc) (auto simp: is_alpha_def is_digit_def byte_def)

lemma lower_alpha: "list_all is_lower s \<Longrightarrow> list_all is_alpha s"
  by (auto simp: list_all_iff is_lower_def is_alpha_def)

lemma to_lower_id: "list_all is_lower s \<Longrightarrow> to_lower s = s"
  by (induction s) (auto simp: to_lower_def is_lower_def)

lemma host_char_safe:
  assumes "host_char c" shows "\<not> should_escape c EncodeHost"
proof -
  consider "is_alnum c" | "c = CHR ''.''" | "c = CHR ''-''" using assms host_char_def by blast
  then show ?thesis
    by cases (simp_all add: should_escape_def is_alnum_def is_alpha_def is_digit_def byte_def)
qed

lemma host_char_byte:
  assumes "host_char c" shows "byte c \<notin> {35, 47, 63, 64} \<and> 32 \<le> byte c \<and> byte c \<noteq> 127"
proof -
  consider "is_alnum c" | "c = CHR ''.''" | "c = CHR ''-''" using assms host_char_def by blast
  then show ?thesis
  proof cases
    case 1
    then show ?thesis by (auto simp: is_alnum_def is_alpha_def is_digit_def)
  qed (simp_all add: byte_def)
qed

lemma host_char_props:
  assumes "host_char c"
  shows "c \<noteq> CHR ''/'' \<and> c \<noteq> CHR ''@'' \<and> c \<noteq> CHR ''#'' \<and> c \<noteq> CHR ''?'' \<and>
         \<not> (byte c < 32 \<or> byte c = 127) \<and> \<not> should_escape c EncodeHost"
proof -
  from host_char_byte [OF assms] have b: "byte c \<notin> {35, 47, 63, 64}" "32 \<le> byte c" "byte c \<noteq> 127" by auto
  have "c \<noteq> CHR ''/'' \<and> c \<noteq> CHR ''@'' \<and> c \<noteq> CHR ''#'' \<and> c \<noteq> CHR ''?''"
  proof (intro conjI notI)
    assume "c = CHR ''/''" with b show False by (simp add: byte_def)
  next
    assume "c = CHR ''@''" with b show False by (simp add: byte_def)
  next
    assume "c = CHR ''#''" with b show False by (simp add: byte_def)
  next
    assume "c = CHR ''?''" with b show False by (simp add: byte_def)
  qed
  with b host_char_safe [OF assms] show ?thesis by simp
qed

lemma url_string_simple:
  assumes "simple_url u"
  shows "url_string u = scheme u @ ''://'' @ host u @ escape (path u) EncodePath"
proof -
  from assms obtain q where p: "path u = CHR ''/'' # q" by (cases "path u") (auto simp: simple_url_def)
  have "escape (host u) EncodeHost = host u"
    using assms host_char_props by (auto intro: escape_id simp: simple_url_def list_all_iff)
  with assms p show ?thesis
    by (simp add: simple_url_def url_string_def escaped_path_def escape_slash)
qed


lemma url_parse_string_eq:
  assumes su: "simple_url u"
  shows "url_parse (url_string u) = Inr u"
proof -
  obtain q where p: "path u = CHR ''/'' # q" using su by (cases "path u") (auto simp: simple_url_def)
  define sch where "sch = scheme u"
  define h where "h = host u"
  define ep where "ep = escape (path u) EncodePath"
  define rest where "rest = ''//'' @ h @ ep"
  define raw where "raw = sch @ CHR '':'' # rest"
  have low: "list_all is_lower sch" "sch \<noteq> []" using su by (simp_all add: simple_url_def sch_def)
  have hc: "\<forall>c\<in>set h. host_char c" using su by (simp add: simple_url_def h_def list_all_iff)
  have ep: "ep = CHR ''/'' # escape q EncodePath" by (simp add: ep_def p escape_slash)
  have epc: "\<forall>c\<in>set ep. c \<noteq> CHR ''#'' \<and> c \<noteq> CHR ''?'' \<and> \<not> (byte c < 32 \<or> byte c = 127)"
    using escape_path_chars unfolding ep_def by blast
  have lc: "\<forall>c\<in>set sch. c \<noteq> CHR ''#'' \<and> c \<noteq> CHR ''?'' \<and> \<not> (byte c < 32 \<or> byte c = 127)"
    using low(1) by (auto simp: list_all_iff is_lower_def byte_def)
  have str: "url_string u = raw"
    using url_string_simple [OF su] by (simp add: raw_def rest_def sch_def h_def ep_def)
  have nh: "CHR ''#'' \<notin> set raw" using epc lc hc host_char_props by (auto simp: raw_def rest_def)
  have nq: "CHR ''?'' \<notin> set rest" using epc hc host_char_props by (auto simp: rest_def)
  have ctl: "\<not> has_ctl raw"
  proof -
    have hh: "\<not> (byte c < 32 \<or> byte c = 127)" if "c \<in> set h" for c
    proof -
      from that hc have "host_char c" by blast
      from host_char_props [OF this] show ?thesis by blast
    qed
    have "\<not> has_ctl h" using hh by (simp add: has_ctl_def list_ex_iff)
    moreover have "\<not> has_ctl sch" using lc by (simp add: has_ctl_def list_ex_iff)
    moreover have "\<not> has_ctl ep" using epc by (simp add: has_ctl_def list_ex_iff)
    moreover have "\<not> has_ctl '':///''" by (simp add: has_ctl_def byte_def)
    ultimately show ?thesis by (simp add: raw_def rest_def has_ctl_def)
  qed
  have star: "raw \<noteq> ''*''" using low(2) by (cases sch) (auto simp: raw_def)
  have gs: "get_scheme_loop [] raw = Inr (sch, rest)"
    using get_scheme_alpha [OF lower_alpha [OF low(1)], of "[]" rest] low(2) by (simp add: raw_def)
  have sfx: "\<not> has_suffix rest ''?''"
  proof
    assume "has_suffix rest ''?''"
    then have "rest \<noteq> [] \<and> last rest = CHR ''?''" by (simp add: has_suffix_iff suffix_single)
    with nq show False using last_in_set by metis
  qed
  have a: "takeWhile (\<lambda>c. c \<noteq> CHR ''/'') (drop 2 rest) = h"
    using hc host_char_props by (simp add: rest_def ep takeWhile_append2)
  have pr: "parse_rest (empty_url\<lparr>scheme := sch, raw_query := []\<rparr>) rest = Inr u"
  proof -
    have "\<forall>c\<in>set h. c \<noteq> CHR ''@''" using hc host_char_props by blast
    then have "CHR ''@'' \<notin> set h" by blast
    then have "parse_rest (empty_url\<lparr>scheme := sch, raw_query := []\<rparr>) rest =
               set_path (empty_url\<lparr>scheme := sch, raw_query := [], host := h\<rparr>) ep"
      using low(2) a by (simp add: parse_rest_def has_prefix_iff parse_authority_def rest_def Let_def)
    also have "\<dots> = Inr u"
      using su by (cases u) (simp add: set_path_def unescape_escape ep_def empty_url_def simple_url_def sch_def h_def)
    finally show ?thesis .
  qed
  show ?thesis
    using str nh ctl star gs low sfx nq pr cut_notin [OF nh] cut_notin [OF nq]
    by (simp add: url_parse_def parse_def to_lower_id)
qed

text \<open>
  C23: \<open>url.Parse\<close> inverts \<open>URL.String\<close> on simple absolute URLs: the printed
  URL parses back to the same record, path escapes included.
\<close>

theorem url_roundtrip:
  assumes "simple_url u"
  shows "url_parse (url_string u) = Inr u"
  using assms by (rule url_parse_string_eq)

theorem url_roundtrip_witness:
  "simple_url (empty_url\<lparr>scheme := ''https'', host := ''www.aozora.gr.jp'',
                         path := ''/cards/000879/files/127 ruby.zip''\<rparr>) \<and>
   url_parse (url_string (empty_url\<lparr>scheme := ''https'', host := ''www.aozora.gr.jp'',
                                    path := ''/cards/000879/files/127 ruby.zip''\<rparr>)) =
     Inr (empty_url\<lparr>scheme := ''https'', host := ''www.aozora.gr.jp'',
                    path := ''/cards/000879/files/127 ruby.zip''\<rparr>)"
proof -
  have h: "simple_url (empty_url\<lparr>scheme := ''https'', host := ''www.aozora.gr.jp'',
                                 path := ''/cards/000879/files/127 ruby.zip''\<rparr>)"
    by code_simp
  show ?thesis using h url_roundtrip [OF h] by blast
qed

section \<open>Errors of unescape\<close>

lemma ex_less_Cons: "(\<exists>i<Suc n. Q i) \<longleftrightarrow> Q 0 \<or> (\<exists>i<n. Q (Suc i))"
  by (auto simp: less_Suc_eq_0_disj)

lemma hex_val_percent [simp]: "hex_val CHR ''%'' = None"
  by (simp add: hex_val_def is_digit_def byte_def)

lemma bad_escape_Cons: "bad_escape_at (c # s) (Suc i) \<longleftrightarrow> bad_escape_at s i"
  by (simp add: bad_escape_at_def)

lemma unescape_None_iff:
  "unescape s = None \<longleftrightarrow> (\<exists>i<length s. bad_escape_at s i)"
proof (induction s rule: unescape.induct)
  case 1
  then show ?case by simp
next
  case (2 c s)
  show ?case
  proof (cases "c = CHR ''%''")
    case False
    then have "\<not> bad_escape_at (c # s) 0" by (simp add: bad_escape_at_def)
    with False "2.IH"(2) show ?thesis
      by (simp add: ex_less_Cons bad_escape_Cons)
  next
    case pc: True
    show ?thesis
    proof (cases "\<exists>h l r a b. s = h # l # r \<and> hex_val h = Some a \<and> hex_val l = Some b")
      case True
      then obtain h l r a b where s: "s = h # l # r" and ha: "hex_val h = Some a" and lb: "hex_val l = Some b"
        by blast
      have ih: "unescape r = None \<longleftrightarrow> (\<exists>i<length r. bad_escape_at r i)"
        using "2.IH"(1) [OF pc s] ha lb by simp
      have "\<not> bad_escape_at (c # s) 0" "\<not> bad_escape_at s 0" "\<not> bad_escape_at (l # r) 0"
        using ha lb s by (auto simp: bad_escape_at_def)
      with ih pc s ha lb show ?thesis
        by (simp add: ex_less_Cons bad_escape_Cons)
    next
      case False
      then have "bad_escape_at (c # s) 0"
        using pc by (cases s rule: remdups_adj.cases) (auto simp: bad_escape_at_def)
      moreover have "unescape (c # s) = None"
        using pc False by (cases s rule: remdups_adj.cases) (auto split: option.split)
      ultimately show ?thesis by (auto simp: ex_less_Cons)
    qed
  qed
qed

text \<open>
  C35: percent-decoding fails, and \<open>url.Parse\<close> with it (\<open>invalid URL
  escape\<close>), exactly when some \<open>%\<close> of the input is not followed by two
  hex digits.  No \<open>%\<close> can be consumed as a digit of an earlier escape, so
  every \<open>%\<close> starts one.
\<close>

theorem unescape_error:
  "unescape s = None \<longleftrightarrow>
     (\<exists>i<length s. s ! i = CHR ''%'' \<and>
        (length s \<le> i + 2 \<or> hex_val (s ! (i + 1)) = None \<or> hex_val (s ! (i + 2)) = None))"
  using unescape_None_iff [of s] by (simp add: bad_escape_at_def)

theorem unescape_error_witness:
  "unescape ''a%2'' = None"
proof -
  have "\<exists>i<length ''a%2''. ''a%2'' ! i = CHR ''%'' \<and>
          (length ''a%2'' \<le> i + 2 \<or> hex_val (''a%2'' ! (i + 1)) = None \<or>
           hex_val (''a%2'' ! (i + 2)) = None)"
    by (rule exI [of _ 1]) simp
  then show ?thesis using unescape_error [of "''a%2''"] by blast
qed

end
