(* ===== verification/PathClean.thy ===== *)
theory PathClean
  imports GoPath
begin

text \<open>
  The meaning of \<open>path.Clean\<close> (main.go line 61, through \<open>path.Join\<close> and
  \<open>path.Dir\<close>) and the proofs about the byte loop \<open>path_clean\<close> of
  \<open>GoPath\<close>.  \<open>clean_ref\<close> is the documented segment-stack semantics;
  the loop equals it, proved by a loop invariant (\<open>clean_inv\<close>) over
  computation induction on \<open>clean_loop\<close>.  Since the stack a cleaned path
  renders is normal (\<open>norm_stack\<close>), cleaning it again replays that
  stack, so \<open>path_clean\<close> is idempotent and its results are in normal
  form; the documented rewriting rules hold as laws on paths.  A section
  evaluates \<open>path.Dir\<close> and \<open>path.Join\<close> on detail-page paths.
\<close>

section \<open>Reference semantics of path.Clean\<close>

text \<open>
  The documented meaning of \<open>path.Clean\<close>, independent of the byte loop:
  split at slashes, drop empty and \<open>.\<close> elements, let each \<open>..\<close> remove the
  preceding real element (or vanish at the root of a rooted path, or stay in
  a relative one), and join the remaining elements, \<open>.\<close> for an empty
  result.  The elements are kept on a stack, most recent first.
  \<open>clean_inv\<close> is the loop invariant relating the loop's lazy buffer and
  \<open>dotdot\<close> mark to that stack.
\<close>

fun split_slash :: "bytes \<Rightarrow> bytes list" where
  "split_slash [] = [[]]"
| "split_slash (c # s) =
     (if c = CHR ''/'' then [] # split_slash s
      else (case split_slash s of e # es \<Rightarrow> (c # e) # es | [] \<Rightarrow> [[c]]))"

definition segs :: "bytes \<Rightarrow> bytes list" where
  "segs s = filter (\<lambda>e. e \<noteq> [] \<and> e \<noteq> ''.'') (split_slash s)"

definition clean_step :: "bool \<Rightarrow> bytes list \<Rightarrow> bytes \<Rightarrow> bytes list" where
  "clean_step rooted st e =
     (if e = ''..'' then (if st \<noteq> [] \<and> hd st \<noteq> ''..'' then tl st else if rooted then st else ''..'' # st)
      else e # st)"

fun stack_body :: "bytes list \<Rightarrow> bytes" where
  "stack_body [] = []"
| "stack_body [x] = x"
| "stack_body (x # y # st) = stack_body (y # st) @ ''/'' @ x"

definition render :: "bool \<Rightarrow> bytes list \<Rightarrow> bytes" where
  "render rooted st = (if rooted then ''/'' else []) @ stack_body st"

definition clean_ref :: "bytes \<Rightarrow> bytes" where
  "clean_ref p =
     (if p = [] then ''.''
      else (let rooted = (hd p = CHR ''/'');
                res = render rooted (foldl (clean_step rooted) [] (segs p))
            in if res = [] then ''.'' else res))"

definition clean_inv :: "bool \<Rightarrow> bytes list \<Rightarrow> bytes \<Rightarrow> nat \<Rightarrow> bool" where
  "clean_inv rooted st out dd \<longleftrightarrow>
     out = render rooted st \<and> list_all (\<lambda>e. e \<noteq> [] \<and> CHR ''/'' \<notin> set e) st \<and>
     (if rooted then ''..'' \<notin> set st \<and> dd = 1
      else (\<exists>ns k. st = ns @ replicate k ''..'' \<and> ''..'' \<notin> set ns \<and>
                  dd = length (stack_body (replicate k ''..''))))"

text \<open>A stack \<open>clean_ref\<close> can produce: real elements, with \<open>..\<close> only at the bottom of a relative path.\<close>

definition norm_stack :: "bool \<Rightarrow> bytes list \<Rightarrow> bool" where
  "norm_stack rooted st \<longleftrightarrow>
     list_all (\<lambda>e. e \<noteq> [] \<and> CHR ''/'' \<notin> set e \<and> e \<noteq> ''.'') st \<and>
     (if rooted then ''..'' \<notin> set st else (\<exists>ns k. st = ns @ replicate k ''..'' \<and> ''..'' \<notin> set ns))"

section \<open>The byte loop of path.Clean against its reference\<close>

lemma split_slash_elem:
  "CHR ''/'' \<notin> set e \<Longrightarrow> split_slash (e @ CHR ''/'' # s) = e # split_slash s"
  by (induction e) auto

lemma split_slash_last:
  "CHR ''/'' \<notin> set e \<Longrightarrow> split_slash e = [e]"
  by (induction e) auto

lemma segs_slash [simp]: "segs (CHR ''/'' # s) = segs s"
  by (simp add: segs_def)

lemma segs_Nil [simp]: "segs [] = []"
  by (simp add: segs_def)

lemma segs_elem:
  assumes "CHR ''/'' \<notin> set e" and "s = [] \<or> hd s = CHR ''/''"
  shows "segs (e @ s) = (if e = [] \<or> e = ''.'' then [] else [e]) @ segs s"
proof (cases s)
  case Nil
  with assms show ?thesis by (simp add: segs_def split_slash_last)
next
  case (Cons c s')
  with assms show ?thesis by (simp add: segs_def split_slash_elem)
qed


lemma stack_body_Nil_iff:
  "list_all (\<lambda>e. e \<noteq> []) st \<Longrightarrow> stack_body st = [] \<longleftrightarrow> st = []"
  by (induction st rule: stack_body.induct) auto

lemma render_Cons:
  "render rooted (x # st) = (if st = [] then render rooted [] @ x else render rooted st @ ''/'' @ x)"
  by (cases st) (simp_all add: render_def)

lemma stack_body_append:
  "stack_body (ns @ ys) =
     (if ns = [] then stack_body ys else if ys = [] then stack_body ns
      else stack_body ys @ ''/'' @ stack_body ns)"
  by (induction ns rule: stack_body.induct) (auto simp: neq_Nil_conv)

lemma clean_back_stop:
  assumes "dd \<le> k" and "k \<le> w" and "\<forall>j. k < j \<and> j \<le> w \<longrightarrow> buf ! j \<noteq> CHR ''/''"
    and "k = dd \<or> buf ! k = CHR ''/''"
  shows "clean_back buf dd w = k"
  using assms
proof (induction w)
  case 0
  then show ?case by (subst clean_back.simps) simp
next
  case (Suc w)
  show ?case
  proof (cases "k = Suc w")
    case True
    with Suc.prems show ?thesis by (subst clean_back.simps) auto
  next
    case False
    with Suc.prems have "dd < Suc w" and "buf ! Suc w \<noteq> CHR ''/''" by auto
    moreover from False Suc.prems have "clean_back buf dd w = k" by (intro Suc.IH) auto
    ultimately show ?thesis by (subst clean_back.simps) simp
  qed
qed

text \<open>Backtracking over the last element stops at the slash before it, or at \<open>dotdot\<close>.\<close>

lemma clean_back_pop:
  assumes "out = pre @ x" and "x \<noteq> []" and "CHR ''/'' \<notin> set x"
    and "(pre = ys @ ''/'' \<and> dd \<le> length ys) \<or> length pre = dd"
  shows "take (clean_back out dd (length out - 1)) out = (if length pre = dd then pre else ys)"
proof -
  let ?k = "if length pre = dd then length pre else length ys"
  have x: "\<forall>j. length pre \<le> j \<and> j < length out \<longrightarrow> out ! j \<noteq> CHR ''/''"
  proof (intro allI impI)
    fix j assume "length pre \<le> j \<and> j < length out"
    with assms(1) have "out ! j = x ! (j - length pre)" "j - length pre < length x"
      by (auto simp: nth_append)
    with assms(3) show "out ! j \<noteq> CHR ''/''" by (metis nth_mem)
  qed
  from assms(2) have lx: "0 < length x" by simp
  have "clean_back out dd (length out - 1) = ?k"
  proof (rule clean_back_stop)
    show "dd \<le> ?k" using assms(4) by auto
    show "?k \<le> length out - 1" using assms(1,2,4) by (cases x) auto
    show "\<forall>j. ?k < j \<and> j \<le> length out - 1 \<longrightarrow> out ! j \<noteq> CHR ''/''"
      using x assms(1,4) lx by (auto simp del: length_greater_0_conv)
    show "?k = dd \<or> out ! ?k = CHR ''/''"
      using assms(1,4) by (auto simp: nth_append)
  qed
  with assms(1,4) show ?thesis by auto
qed


lemma clean_inv_top:
  assumes "clean_inv rooted st out dd"
  shows "dd \<le> length out \<and> (dd < length out \<longleftrightarrow> st \<noteq> [] \<and> hd st \<noteq> ''..'')"
proof (cases rooted)
  case True
  with assms have "out = ''/'' @ stack_body st" "dd = 1" "''..'' \<notin> set st"
    and ne: "list_all (\<lambda>e. e \<noteq> []) st"
    by (auto simp: clean_inv_def render_def list_all_iff)
  with stack_body_Nil_iff [OF ne] show ?thesis by (cases st) auto
next
  case False
  with assms obtain ns k where st: "st = ns @ replicate k ''..''" and nd: "''..'' \<notin> set ns"
    and dd: "dd = length (stack_body (replicate k ''..''))" and out: "out = stack_body st"
    and ne: "list_all (\<lambda>e. e \<noteq> []) ns"
    by (auto simp: clean_inv_def render_def list_all_iff)
  show ?thesis
  proof (cases ns)
    case Nil
    with st dd out show ?thesis by (cases k) auto
  next
    case (Cons n ns')
    with ne have nb: "stack_body ns \<noteq> []" using stack_body_Nil_iff [OF ne] by simp
    have "out = (if k = 0 then stack_body ns else stack_body (replicate k ''..'') @ ''/'' @ stack_body ns)"
      using out st Cons stack_body_append [of ns "replicate k ''..''"] by simp
    with nb dd have "dd < length out" by (cases k) auto
    with Cons st nd show ?thesis by auto
  qed
qed

lemma clean_inv_pop:
  assumes "clean_inv rooted st out dd" and "dd < length out"
  shows "clean_inv rooted (tl st) (take (clean_back out dd (length out - 1)) out) dd"
proof -
  from clean_inv_top [OF assms(1)] assms(2) obtain x st' where
    st: "st = x # st'" and x: "x \<noteq> ''..''" by (cases st) auto
  from assms(1) st have xe: "x \<noteq> []" "CHR ''/'' \<notin> set x"
    and out: "out = render rooted st" by (auto simp: clean_inv_def)
  have inv': "clean_inv rooted st' (render rooted st') dd"
  proof (cases rooted)
    case True
    with assms(1) st show ?thesis by (auto simp: clean_inv_def)
  next
    case False
    with assms(1) obtain ns k where ns: "st = ns @ replicate k ''..''" "''..'' \<notin> set ns"
      and dd: "dd = length (stack_body (replicate k ''..''))" by (auto simp: clean_inv_def)
    from ns st x obtain ns' where "ns = x # ns'"
      by (cases ns) (auto simp: Cons_replicate_eq)
    with ns dd st assms(1) False show ?thesis by (auto simp: clean_inv_def)
  qed
  have "take (clean_back out dd (length out - 1)) out = render rooted st'"
  proof (cases "st' = []")
    case True
    from inv' True have "length (render rooted []) = dd"
      by (cases rooted) (auto simp: clean_inv_def render_def)
    with True out st xe show ?thesis
      using clean_back_pop [of out "render rooted []" x "[]" dd] by (simp add: render_Cons)
  next
    case False
    from clean_inv_top [OF inv'] have "dd \<le> length (render rooted st')" by simp
    with False out st xe show ?thesis
      using clean_back_pop [of out "render rooted st' @ ''/''" x "render rooted st'" dd]
      by (auto simp: render_Cons)
  qed
  with inv' st show ?thesis by simp
qed


lemma render_length_Nil:
  "list_all (\<lambda>e. e \<noteq> []) st \<Longrightarrow>
     length (render rooted st) = length (render rooted []) \<longleftrightarrow> st = []"
  using stack_body_Nil_iff [of st] by (auto simp: render_def)

lemma clean_inv_elem:
  assumes "clean_inv rooted st out dd" and "e \<noteq> []" and "CHR ''/'' \<notin> set e" and "e \<noteq> ''..''"
  shows "clean_inv rooted (e # st)
           ((if (rooted \<and> length out \<noteq> 1) \<or> (\<not> rooted \<and> length out \<noteq> 0) then out @ ''/'' else out) @ e) dd"
proof -
  from assms(1) have out: "out = render rooted st"
    and ne: "list_all (\<lambda>e. e \<noteq> []) st" by (auto simp: clean_inv_def list_all_iff)
  have "((rooted \<and> length out \<noteq> 1) \<or> (\<not> rooted \<and> length out \<noteq> 0)) \<longleftrightarrow> st \<noteq> []"
    using render_length_Nil [OF ne, of rooted] out by (cases rooted) (auto simp: render_def)
  then have "(if (rooted \<and> length out \<noteq> 1) \<or> (\<not> rooted \<and> length out \<noteq> 0) then out @ ''/'' else out) @ e =
             render rooted (e # st)"
    using out by (simp add: render_Cons)
  moreover have "clean_inv rooted (e # st) (render rooted (e # st)) dd"
  proof (cases rooted)
    case True
    then show ?thesis using assms by (auto simp: clean_inv_def)
  next
    case False
    with assms(1) obtain ns k where "st = ns @ replicate k ''..''" "''..'' \<notin> set ns"
      "dd = length (stack_body (replicate k ''..''))" by (auto simp: clean_inv_def)
    then show ?thesis using assms False
      by (auto simp: clean_inv_def intro!: exI [of _ "e # ns"] exI [of _ k])
  qed
  ultimately show ?thesis by simp
qed

lemma clean_inv_dots:
  assumes "clean_inv False st out dd" and "\<not> dd < length out"
  shows "clean_inv False (''..'' # st) ((if 0 < length out then out @ ''/'' else out) @ ''..'')
           (length ((if 0 < length out then out @ ''/'' else out) @ ''..''))"
proof -
  from assms(1) obtain ns k where st: "st = ns @ replicate k ''..''" and nd: "''..'' \<notin> set ns"
    and out: "out = render False st" and ne: "list_all (\<lambda>e. e \<noteq> []) st"
    by (auto simp: clean_inv_def list_all_iff)
  from clean_inv_top [OF assms(1)] assms(2) have "st = [] \<or> hd st = ''..''" by auto
  with st nd have "ns = []" by (cases ns) auto
  with st have st': "''..'' # st = replicate (Suc k) ''..''" by simp
  have "(0 < length out) \<longleftrightarrow> st \<noteq> []"
    using render_length_Nil [OF ne, of False] out by (simp add: render_def)
  then have "(if 0 < length out then out @ ''/'' else out) @ ''..'' = render False (''..'' # st)"
    using out by (cases st) (auto simp: render_def)
  then show ?thesis using st' \<open>ns = []\<close> st
    by (auto simp: clean_inv_def render_def list_all_iff intro!: exI [of _ "[]"] exI [of _ "Suc k"])
qed

lemma clean_inv_root:
  assumes "clean_inv True st out dd" and "\<not> dd < length out"
  shows "st = []"
proof -
  from clean_inv_top [OF assms(1)] assms(2) have "st = [] \<or> hd st = ''..''" by auto
  moreover from assms(1) have "''..'' \<notin> set st" by (simp add: clean_inv_def)
  ultimately show ?thesis by (cases st) auto
qed


lemma drop_boundary:
  "k \<le> length p \<Longrightarrow> (drop k p = [] \<or> hd (drop k p) = CHR ''/'') \<longleftrightarrow> (k = length p \<or> p ! k = CHR ''/'')"
  by (cases "k < length p") (auto simp: hd_drop_conv_nth)

lemma drop_Cons_iff: "drop k p = x # xs \<longleftrightarrow> k < length p \<and> p ! k = x \<and> drop (Suc k) p = xs"
proof
  assume h: "drop k p = x # xs"
  then have k: "k < length p" by (cases "k < length p") auto
  with h Cons_nth_drop_Suc [OF k] show "k < length p \<and> p ! k = x \<and> drop (Suc k) p = xs" by simp
next
  assume "k < length p \<and> p ! k = x \<and> drop (Suc k) p = xs"
  then show "drop k p = x # xs" by (metis Cons_nth_drop_Suc)
qed

lemma clean_step_elem [simp]: "e \<noteq> ''..'' \<Longrightarrow> clean_step rooted st e = e # st"
  by (simp add: clean_step_def)

lemma clean_loop_ref:
  "clean_inv rooted st out dd \<Longrightarrow>
     clean_loop p rooted r out dd = render rooted (foldl (clean_step rooted) st (segs (drop r p)))"
proof (induction p rooted r out dd arbitrary: st rule: clean_loop.induct)
  case (1 p rooted r out dd st)
  note IH = "1.IH" and inv = "1.prems"
  show ?case
  proof (cases "r < length p")
    case False
    then show ?thesis using inv by (subst clean_loop.simps) (simp add: clean_inv_def)
  next
    case r: True
    have dr: "drop r p = p ! r # drop (Suc r) p" using r by (rule Cons_nth_drop_Suc [symmetric])
    consider (sl) "p ! r = CHR ''/''"
      | (dot) "p ! r \<noteq> CHR ''/''" "p ! r = CHR ''.'' \<and> (Suc r = length p \<or> p ! Suc r = CHR ''/'')"
      | (dd) "p ! r \<noteq> CHR ''/''" "\<not> (p ! r = CHR ''.'' \<and> (Suc r = length p \<or> p ! Suc r = CHR ''/''))"
          "p ! r = CHR ''.'' \<and> p ! Suc r = CHR ''.'' \<and>
           (Suc (Suc r) = length p \<or> p ! Suc (Suc r) = CHR ''/'')"
      | (el) "p ! r \<noteq> CHR ''/''" "\<not> (p ! r = CHR ''.'' \<and> (Suc r = length p \<or> p ! Suc r = CHR ''/''))"
          "\<not> (p ! r = CHR ''.'' \<and> p ! Suc r = CHR ''.'' \<and>
              (Suc (Suc r) = length p \<or> p ! Suc (Suc r) = CHR ''/''))"
      by blast
    then show ?thesis
    proof cases
      case sl
      then have "segs (drop r p) = segs (drop (Suc r) p)" using dr by simp
      with IH(1) [OF r sl inv] r sl show ?thesis by (subst clean_loop.simps) simp
    next
      case dot
      have "drop r p = ''.'' @ drop (Suc r) p" using dr dot by simp
      moreover have "drop (Suc r) p = [] \<or> hd (drop (Suc r) p) = CHR ''/''"
        using dot r drop_boundary [of "Suc r" p] by auto
      ultimately have "segs (drop r p) = segs (drop (Suc r) p)"
        using segs_elem [of "''.''" "drop (Suc r) p"] by simp
      with IH(2) [OF r dot inv] r dot show ?thesis by (subst clean_loop.simps) simp
    next
      case dd
      from dd r have r1: "Suc r < length p" by auto
      have "drop (Suc r) p = p ! Suc r # drop (Suc (Suc r)) p"
        using r1 by (rule Cons_nth_drop_Suc [symmetric])
      with dr dd have "drop r p = ''..'' @ drop (Suc (Suc r)) p" by simp
      moreover have "drop (Suc (Suc r)) p = [] \<or> hd (drop (Suc (Suc r)) p) = CHR ''/''"
        using dd r1 drop_boundary [of "Suc (Suc r)" p] by auto
      ultimately have sg: "segs (drop r p) = ''..'' # segs (drop (Suc (Suc r)) p)"
        using segs_elem [of "''..''" "drop (Suc (Suc r)) p"] by simp
      have top: "dd < length out \<longleftrightarrow> st \<noteq> [] \<and> hd st \<noteq> ''..''"
        using clean_inv_top [OF inv] by simp
      consider (pop) "dd < length out" | (rel) "\<not> dd < length out" "\<not> rooted"
        | (root) "\<not> dd < length out" "rooted" by blast
      then show ?thesis
      proof cases
        case pop
        with top have "clean_step rooted st ''..'' = tl st" by (simp add: clean_step_def)
        with IH(3) [OF r dd pop clean_inv_pop [OF inv pop]] r dd pop sg show ?thesis
          by (subst clean_loop.simps) simp
      next
        case rel
        with top have "clean_step rooted st ''..'' = ''..'' # st" by (auto simp: clean_step_def)
        with IH(4) [OF r dd rel refl] clean_inv_dots [of st out dd] inv r dd rel sg show ?thesis
          by (subst clean_loop.simps) simp
      next
        case root
        with clean_inv_root [of st out dd] inv have "st = []" by simp
        then have "clean_step rooted st ''..'' = st" using root by (simp add: clean_step_def)
        with IH(5) [OF r dd root(1)] inv r dd root sg show ?thesis
          by (subst clean_loop.simps) simp
      qed
    next
      case el
      define e where "e = takeWhile (\<lambda>c. c \<noteq> CHR ''/'') (drop r p)"
      define s' where "s' = dropWhile (\<lambda>c. c \<noteq> CHR ''/'') (drop r p)"
      have split: "drop r p = e @ s'" by (simp add: e_def s'_def)
      have bd: "s' = [] \<or> hd s' = CHR ''/''"
      proof (cases "s' = []")
        case False
        then have "\<not> hd s' \<noteq> CHR ''/''" unfolding s'_def by (rule hd_dropWhile)
        then show ?thesis by simp
      qed simp
      have ns: "CHR ''/'' \<notin> set e" by (auto simp: e_def dest: set_takeWhileD)
      have ne: "e \<noteq> []" using el dr by (simp add: e_def)
      have rest: "drop (r + length e) p = s'"
        by (simp add: s'_def e_def dropWhile_eq_drop add.commute)
      have "e \<noteq> ''.''"
      proof
        assume "e = ''.''"
        with split dr have "drop (Suc r) p = s'" "p ! r = CHR ''.''" by auto
        with bd r drop_boundary [of "Suc r" p] el show False by auto
      qed
      moreover have "e \<noteq> ''..''"
      proof
        assume "e = ''..''"
        with split dr have "drop (Suc r) p = CHR ''.'' # s'" "p ! r = CHR ''.''" by auto
        then have "Suc r < length p" "p ! Suc r = CHR ''.''" "drop (Suc (Suc r)) p = s'"
          by (simp_all only: drop_Cons_iff)
        with bd drop_boundary [of "Suc (Suc r)" p] el \<open>p ! r = CHR ''.''\<close> show False by auto
      qed
      ultimately have sg: "segs (drop r p) = e # segs s'"
        using segs_elem [OF ns bd] split ne by simp
      have step: "clean_loop p rooted r out dd =
          clean_loop p rooted (r + length e)
            ((if (rooted \<and> length out \<noteq> 1) \<or> (\<not> rooted \<and> length out \<noteq> 0) then out @ ''/'' else out) @ e) dd"
        by (subst clean_loop.simps) (simp only: r el if_True if_False Let_def e_def [symmetric])
      from IH(6) [OF r el refl e_def clean_inv_elem [OF inv ne ns \<open>e \<noteq> ''..''\<close>]]
        sg rest \<open>e \<noteq> ''..''\<close> show ?thesis
        by (simp only: step) simp
    qed
  qed
qed


lemma path_clean_eq: "path_clean p = clean_ref p"
proof (cases p)
  case Nil
  then show ?thesis by (simp add: path_clean_def clean_ref_def)
next
  case (Cons c q)
  show ?thesis
  proof (cases "c = CHR ''/''")
    case True
    have "clean_inv True [] ''/'' 1" by (simp add: clean_inv_def render_def)
    from clean_loop_ref [OF this, of p 1] Cons True show ?thesis
      by (simp add: path_clean_def clean_ref_def)
  next
    case False
    have "clean_inv False [] [] 0" by (auto simp: clean_inv_def render_def)
    from clean_loop_ref [OF this, of p 0] Cons False show ?thesis
      by (simp add: path_clean_def clean_ref_def)
  qed
qed

section \<open>path.Dir and path.Join on the detail-page paths\<close>

lemma last_slash_split:
  assumes "CHR ''/'' \<notin> set y"
  shows "last_slash (x @ CHR ''/'' # y) = int (length x)"
proof -
  let ?p = "x @ CHR ''/'' # y"
  have "find (\<lambda>i. rev ?p ! i = CHR ''/'') [0..<length ?p] = Some (length y)"
  proof (subst find_Some_iff, intro exI conjI)
    show "length y < length [0..<length ?p]" by simp
    show "rev ?p ! ([0..<length ?p] ! length y) = CHR ''/''" by (simp add: nth_append del: upt_Suc)
    show "length y = [0..<length ?p] ! length y" by (simp del: upt_Suc)
    show "\<forall>j<length y. \<not> rev ?p ! ([0..<length ?p] ! j) = CHR ''/''"
      using assms by (auto simp: nth_append simp del: upt_Suc) (metis length_rev nth_mem set_rev)
  qed
  then show ?thesis by (simp add: last_slash_def)
qed

lemma path_split_slash:
  assumes "CHR ''/'' \<notin> set y"
  shows "path_split (x @ CHR ''/'' # y) = (x @ ''/'', y)"
proof -
  have "nat (int (length x) + 1) = Suc (length x)" by (simp flip: of_nat_Suc)
  with assms show ?thesis by (simp add: path_split_def last_slash_split Let_def)
qed

lemma segs_digits:
  assumes "digits A"
  shows "segs (''/cards/'' @ A @ ''/'' @ z) = ''cards'' # A # segs z"
proof -
  from assms have ns: "CHR ''/'' \<notin> set A" and ne: "A \<noteq> []" "A \<noteq> ''.''"
    by (auto simp: digits_def list_all_iff)
  have "segs (''cards'' @ ''/'' @ A @ ''/'' @ z) = ''cards'' # segs (''/'' @ A @ ''/'' @ z)"
    by (subst segs_elem) simp_all
  moreover have "segs (A @ ''/'' @ z) = A # segs (''/'' @ z)"
    using segs_elem [OF ns, of "''/'' @ z"] ne by simp
  ultimately show ?thesis by simp
qed


lemma digits_seg: "digits A \<Longrightarrow> A \<noteq> ''..'' \<and> A \<noteq> [] \<and> CHR ''/'' \<notin> set A"
  by (auto simp: digits_def list_all_iff)

lemma clean_ref_rooted: "clean_ref (CHR ''/'' # p) = CHR ''/'' # stack_body (foldl (clean_step True) [] (segs p))"
  by (simp add: clean_ref_def render_def)

lemma path_dir_card:
  assumes "digits A" and "digits T"
  shows "path_dir (''/cards/'' @ A @ ''/card'' @ T @ ''.html'') = ''/cards/'' @ A"
proof -
  have "CHR ''/'' \<notin> set (''card'' @ T @ ''.html'')" using digits_seg [OF assms(2)] by simp
  from path_split_slash [OF this, of "''/cards/'' @ A"]
  have "path_dir (''/cards/'' @ A @ ''/card'' @ T @ ''.html'') = path_clean (''/cards/'' @ A @ ''/'')"
    by (simp add: path_dir_def)
  also have "\<dots> = ''/cards/'' @ A"
    using segs_digits [OF assms(1), of "[]"] digits_seg [OF assms(1)]
    by (simp add: path_clean_eq clean_ref_rooted clean_step_def)
  finally show ?thesis .
qed

lemma path_join_card:
  "z \<noteq> [] \<Longrightarrow> path_join [''/cards/'' @ A, z] = clean_ref (''/cards/'' @ A @ ''/'' @ z)"
  by (simp add: path_join_def path_clean_eq)

text \<open>
  C17: \<open>path.Clean\<close>, Go's single-pass byte loop with a lazily written
  buffer and a backtracking limit, computes exactly the segment-stack
  reference: empty and \<open>.\<close> elements vanish, \<open>..\<close> cancels the preceding
  real element, is dropped at the root and kept at the front of a relative
  path, and an empty result is \<open>.\<close>.
\<close>

theorem path_clean_ref: "path_clean p = clean_ref p"
  by (rule path_clean_eq)

section \<open>Idempotence of path.Clean\<close>

lemma split_slash_ne [simp]: "split_slash s \<noteq> []"
  by (induction s) (auto split: list.splits)

lemma split_slash_append:
  "split_slash (a @ CHR ''/'' # b) = split_slash a @ split_slash b"
  by (induction a) (auto split: list.splits)

lemma split_slash_no_slash: "x \<in> set (split_slash s) \<Longrightarrow> CHR ''/'' \<notin> set x"
  by (induction s arbitrary: x) (auto split: list.splits if_splits)

lemma segs_append_slash: "segs (a @ CHR ''/'' # b) = segs a @ segs b"
  by (simp add: segs_def split_slash_append)

lemma segs_elems: "x \<in> set (segs s) \<Longrightarrow> x \<noteq> [] \<and> CHR ''/'' \<notin> set x \<and> x \<noteq> ''.''"
  by (auto simp: segs_def dest: split_slash_no_slash)

lemma segs_single: "x \<noteq> [] \<Longrightarrow> CHR ''/'' \<notin> set x \<Longrightarrow> x \<noteq> ''.'' \<Longrightarrow> segs x = [x]"
  by (simp add: segs_def split_slash_last)

lemma segs_stack_body:
  "list_all (\<lambda>e. e \<noteq> [] \<and> CHR ''/'' \<notin> set e \<and> e \<noteq> ''.'') st \<Longrightarrow> segs (stack_body st) = rev st"
  by (induction st rule: stack_body.induct) (simp_all add: segs_append_slash segs_single)


lemma norm_stack_Nil [simp]: "norm_stack rooted []"
  by (auto simp: norm_stack_def intro: exI [of _ "[]"] exI [of _ 0])

lemma norm_stack_tl: "norm_stack rooted (x # st) \<Longrightarrow> norm_stack rooted st"
proof -
  assume n: "norm_stack rooted (x # st)"
  show "norm_stack rooted st"
  proof (cases rooted)
    case True
    with n show ?thesis by (simp add: norm_stack_def)
  next
    case False
    with n obtain ns k where st: "x # st = ns @ replicate k ''..''" "''..'' \<notin> set ns"
      by (auto simp: norm_stack_def)
    show ?thesis
    proof (cases ns)
      case Nil
      with st False n show ?thesis
        by (auto simp: norm_stack_def Cons_replicate_eq intro!: exI [of _ "[]"] exI [of _ "k - 1"])
    next
      case (Cons y ns')
      with st False n show ?thesis by (auto simp: norm_stack_def intro!: exI [of _ ns'] exI [of _ k])
    qed
  qed
qed

lemma clean_step_norm:
  assumes n: "norm_stack rooted st" and e: "e \<noteq> []" "CHR ''/'' \<notin> set e" "e \<noteq> ''.''"
  shows "norm_stack rooted (clean_step rooted st e)"
proof -
  let ?P = "\<lambda>e. e \<noteq> [] \<and> CHR ''/'' \<notin> set e \<and> e \<noteq> ''.''"
  from n have la: "list_all ?P st" by (simp add: norm_stack_def)
  show ?thesis
  proof (cases "e = ''..''")
    case False
    then have cs: "clean_step rooted st e = e # st" by simp
    have la': "list_all ?P (e # st)" using la e by simp
    show ?thesis
    proof (cases rooted)
      case True
      with n False la' show ?thesis by (simp add: cs norm_stack_def)
    next
      case nr: False
      from n nr obtain ns k where st: "st = ns @ replicate k ''..''" "''..'' \<notin> set ns"
        by (auto simp: norm_stack_def)
      with False have "e # st = (e # ns) @ replicate k ''..'' \<and> ''..'' \<notin> set (e # ns)" by simp
      then have "\<exists>ns k. e # st = ns @ replicate k ''..'' \<and> ''..'' \<notin> set ns" by blast
      with la' nr show ?thesis unfolding cs by (simp add: norm_stack_def)
    qed
  next
    case True
    show ?thesis
    proof (cases "st \<noteq> [] \<and> hd st \<noteq> ''..''")
      case pop: True
      then obtain x st' where "st = x # st'" by (cases st) auto
      with n norm_stack_tl [of rooted x st'] True pop show ?thesis by (simp add: clean_step_def)
    next
      case keep: False
      show ?thesis
      proof (cases rooted)
        case True
        with keep \<open>e = ''..''\<close> have "clean_step rooted st e = st" by (auto simp: clean_step_def)
        with n show ?thesis by simp
      next
        case nr: False
        with keep \<open>e = ''..''\<close> have cs: "clean_step rooted st e = ''..'' # st" by (auto simp: clean_step_def)
        from n nr obtain ns k where st: "st = ns @ replicate k ''..''" "''..'' \<notin> set ns"
          by (auto simp: norm_stack_def)
        with keep have "ns = []" by (cases ns) auto
        with st have r: "''..'' # st = [] @ replicate (Suc k) ''..''" by simp
        then have "\<exists>ns k. ''..'' # st = ns @ replicate k ''..'' \<and> ''..'' \<notin> set ns"
          by (intro exI [of _ "[]"] exI [of _ "Suc k"]) (simp only: r, simp)
        moreover have "list_all ?P (''..'' # st)" using la by simp
        ultimately show ?thesis using nr unfolding cs by (simp add: norm_stack_def)
      qed
    qed
  qed
qed

lemma foldl_clean_norm:
  "norm_stack rooted st \<Longrightarrow> (\<forall>x\<in>set xs. x \<noteq> [] \<and> CHR ''/'' \<notin> set x \<and> x \<noteq> ''.'') \<Longrightarrow>
     norm_stack rooted (foldl (clean_step rooted) st xs)"
  by (induction xs arbitrary: st) (simp_all add: clean_step_norm)

lemma clean_replay: "norm_stack rooted st \<Longrightarrow> foldl (clean_step rooted) [] (rev st) = st"
proof (induction st)
  case Nil
  then show ?case by simp
next
  case (Cons x st)
  from Cons.IH [OF norm_stack_tl [OF Cons.prems]]
  have "foldl (clean_step rooted) [] (rev (x # st)) = clean_step rooted st x" by simp
  also have "\<dots> = x # st"
  proof (cases "x = ''..''")
    case False
    then show ?thesis by simp
  next
    case True
    from Cons.prems True have nr: "\<not> rooted" by (auto simp: norm_stack_def)
    with Cons.prems obtain ns k where st: "x # st = ns @ replicate k ''..''" "''..'' \<notin> set ns"
      by (auto simp: norm_stack_def)
    with True have "ns = []" by (cases ns) auto
    with st have "st = replicate (k - 1) ''..''" by (cases k) auto
    then have "st = [] \<or> hd st = ''..''" by (cases "k - 1") auto
    with True nr show ?thesis by (auto simp: clean_step_def)
  qed
  finally show ?case .
qed


lemma stack_body_hd:
  "list_all (\<lambda>e. e \<noteq> [] \<and> CHR ''/'' \<notin> set e) st \<Longrightarrow> st \<noteq> [] \<Longrightarrow>
     stack_body st \<noteq> [] \<and> hd (stack_body st) \<noteq> CHR ''/''"
proof (induction st rule: stack_body.induct)
  case (2 x)
  then show ?case by (cases x) auto
next
  case (3 x y st)
  then show ?case by simp
qed simp

lemma clean_dot: "clean_ref ''.'' = ''.''"
  by (simp add: clean_ref_def segs_def render_def)

lemma clean_ref_idem: "clean_ref (clean_ref p) = clean_ref p"
proof (cases p)
  case Nil
  then have "clean_ref p = ''.''" by (simp add: clean_ref_def)
  with clean_dot show ?thesis by simp
next
  case (Cons c q)
  define rooted where "rooted = (c = CHR ''/'')"
  define st where "st = foldl (clean_step rooted) [] (segs p)"
  have n: "norm_stack rooted st"
    unfolding st_def using segs_elems by (intro foldl_clean_norm) auto
  then have la: "list_all (\<lambda>e. e \<noteq> [] \<and> CHR ''/'' \<notin> set e \<and> e \<noteq> ''.'') st"
    by (simp add: norm_stack_def)
  have cp: "clean_ref p = (if render rooted st = [] then ''.'' else render rooted st)"
    by (simp add: clean_ref_def Cons rooted_def st_def Let_def)
  show ?thesis
  proof (cases "render rooted st = []")
    case True
    with cp show ?thesis by (simp add: clean_dot)
  next
    case False
    let ?r = "render rooted st"
    have hd: "hd ?r = CHR ''/'' \<longleftrightarrow> rooted"
    proof (cases rooted)
      case False
      with \<open>?r \<noteq> []\<close> have "st \<noteq> []" by (auto simp: render_def)
      with la stack_body_hd [of st] False show ?thesis by (simp add: render_def list_all_iff)
    qed (simp add: render_def)
    have sg: "segs ?r = rev st"
      using segs_stack_body [OF la] by (cases rooted) (simp_all add: render_def)
    have "clean_ref ?r = ?r"
      using False hd sg clean_replay [OF n] by (simp add: clean_ref_def)
    with cp False show ?thesis by simp
  qed
qed

lemma clean_ref_normal:
  "\<exists>rooted st. norm_stack rooted st \<and> clean_ref p = (if render rooted st = [] then ''.'' else render rooted st)"
proof (cases p)
  case Nil
  then show ?thesis by (intro exI [of _ False] exI [of _ "[]"]) (simp add: clean_ref_def render_def)
next
  case (Cons c q)
  define rooted where "rooted = (c = CHR ''/'')"
  define st where "st = foldl (clean_step rooted) [] (segs p)"
  have "norm_stack rooted st"
    unfolding st_def using segs_elems by (intro foldl_clean_norm) auto
  moreover have "clean_ref p = (if render rooted st = [] then ''.'' else render rooted st)"
    by (simp add: clean_ref_def Cons rooted_def st_def Let_def)
  ultimately show ?thesis by blast
qed

text \<open>
  C30: the result of \<open>path.Clean\<close> is in the normal form its
  documentation describes, and cleaning it again changes nothing.  It is
  the rendering of a normal stack: no empty elements (no doubled slash), no
  \<open>.\<close> elements, no \<open>..\<close> after a real element, none at all in a
  rooted path, no trailing slash, and \<open>.\<close> only for an empty result.
\<close>

theorem path_clean_normal:
  "path_clean (path_clean p) = path_clean p \<and>
   (\<exists>rooted st. norm_stack rooted st \<and>
      path_clean p = (if render rooted st = [] then ''.'' else render rooted st))"
  by (simp add: path_clean_eq clean_ref_idem clean_ref_normal)

section \<open>Rewriting laws of path.Clean\<close>

lemma clean_ref_cong:
  "p \<noteq> [] \<Longrightarrow> q \<noteq> [] \<Longrightarrow> hd p = hd q \<Longrightarrow> segs p = segs q \<Longrightarrow> clean_ref p = clean_ref q"
  by (simp add: clean_ref_def)

lemma clean_ref_fold:
  "p \<noteq> [] \<Longrightarrow> q \<noteq> [] \<Longrightarrow> hd p = hd q \<Longrightarrow>
   foldl (clean_step (hd q = CHR ''/'')) [] (segs p) = foldl (clean_step (hd q = CHR ''/'')) [] (segs q) \<Longrightarrow>
   clean_ref p = clean_ref q"
  by (simp add: clean_ref_def)

lemma hd_slash: "hd (x @ CHR ''/'' # z) = hd (x @ CHR ''/'' # z')"
  by (cases x) simp_all

lemma clean_step_cancel: "e \<noteq> ''..'' \<Longrightarrow> clean_step rooted (e # st) ''..'' = st"
  by (simp add: clean_step_def)

lemma segs_dot [simp]: "segs ''.'' = []" and segs_dotdot [simp]: "segs ''..'' = [''..'']"
  by (simp_all add: segs_def)

lemma path_clean_dot: "path_clean (x @ ''/./'' @ y) = path_clean (x @ ''/'' @ y)"
proof -
  have "segs (x @ CHR ''/'' # ''.'' @ CHR ''/'' # y) = segs (x @ CHR ''/'' # y)"
    by (simp only: segs_append_slash) simp
  then show ?thesis unfolding path_clean_eq
    by (intro clean_ref_cong) (simp_all add: hd_slash)
qed

lemma path_clean_slash: "path_clean (x @ ''//'' @ y) = path_clean (x @ ''/'' @ y)"
proof -
  have "segs (x @ CHR ''/'' # CHR ''/'' # y) = segs (x @ CHR ''/'' # y)"
    by (simp only: segs_append_slash) simp
  then show ?thesis unfolding path_clean_eq
    by (intro clean_ref_cong) (simp_all add: hd_slash)
qed

lemma path_clean_parent:
  assumes "e \<noteq> []" "CHR ''/'' \<notin> set e" "e \<noteq> ''.''" "e \<noteq> ''..''"
  shows "path_clean (x @ ''/'' @ e @ ''/../'' @ y) = path_clean (x @ ''/'' @ y)"
proof -
  let ?p = "x @ CHR ''/'' # e @ CHR ''/'' # ''..'' @ CHR ''/'' # y" and ?q = "x @ CHR ''/'' # y"
  have s: "segs ?p = segs x @ [e, ''..''] @ segs y"
    by (simp only: segs_append_slash append_assoc [symmetric]) (simp add: segs_single assms)
  have f: "foldl (clean_step r) [] (segs x @ [e, ''..''] @ segs y) = foldl (clean_step r) [] (segs x @ segs y)" for r
    using assms(4) by (simp add: clean_step_cancel)
  have "clean_ref ?p = clean_ref ?q"
  proof (rule clean_ref_fold)
    show "?p \<noteq> []" and "?q \<noteq> []" by simp_all
    show "hd ?p = hd ?q" by (rule hd_slash)
    show "foldl (clean_step (hd ?q = CHR ''/'')) [] (segs ?p) = foldl (clean_step (hd ?q = CHR ''/'')) [] (segs ?q)"
      unfolding s segs_append_slash [of x y] by (rule f)
  qed
  moreover have "x @ ''/'' @ e @ ''/../'' @ y = ?p" and "x @ ''/'' @ y = ?q" by simp_all
  ultimately show ?thesis by (simp only: path_clean_eq)
qed

text \<open>
  C34: the three rules of the \<open>path.Clean\<close> documentation as laws on
  paths: a \<open>/./\<close> element disappears, a doubled slash collapses, and a
  real element followed by \<open>..\<close> cancels, whatever precedes and follows.
\<close>

theorem path_clean_laws:
  "path_clean (x @ ''/./'' @ y) = path_clean (x @ ''/'' @ y) \<and>
   path_clean (x @ ''//'' @ y) = path_clean (x @ ''/'' @ y) \<and>
   (e \<noteq> [] \<and> CHR ''/'' \<notin> set e \<and> e \<noteq> ''.'' \<and> e \<noteq> ''..'' \<longrightarrow>
      path_clean (x @ ''/'' @ e @ ''/../'' @ y) = path_clean (x @ ''/'' @ y))"
  using path_clean_dot path_clean_slash path_clean_parent by blast

theorem path_clean_laws_witness:
  "path_clean ''a/./b'' = path_clean ''a/b'' \<and> path_clean ''a//b'' = path_clean ''a/b'' \<and>
   path_clean ''/x/../b'' = path_clean ''/b''"
  using path_clean_laws [of "''a''" "''b''" "''x''"] path_clean_laws [of "[]" "''b''" "''x''"] by simp

end
