(* ===== verification/Collector.thy ===== *)
theory Collector
  imports Regexp Html NetUrl PathClean
begin

text \<open>
  The program itself, src/cmd/aozora-collector/main.go.  The network and the
  decoders are the environment \<open>web\<close>: what \<open>http.Get\<close> returns for a URL,
  what goquery's HTML parser, \<open>zip.NewReader\<close> and the Shift-JIS decoder
  produce for given bytes, errors included.  The effects the program has on
  the world are explicit in \<open>world\<close>: the GET requests it issues, in order,
  the lines it prints on standard output and on the log (standard error),
  and the exit status.  Each Go function is one definition, its early returns
  are the branches of its \<open>case\<close>s, and its \<open>Each\<close>/\<open>for\<close> loops are folds
  over the selection, in document order.
\<close>

section \<open>Data\<close>

text \<open>\<open>type Entry struct\<close> (lines 20-27), with the source's field names.\<close>

record entry =
  autor_id :: string
  author :: string
  title_id :: string
  title :: string
  site_url :: string
  zip_url :: string

text \<open>An HTTP response: its status code and the outcome of reading its body to the end.\<close>

record response =
  status :: nat
  body :: "goerr + bytes"

text \<open>A file of a ZIP archive: its name, and the outcome of \<open>file.Open()\<close> and then \<open>io.ReadAll\<close>.\<close>

record zfile =
  zname :: string
  zopen :: "goerr + (goerr + bytes)"

record web =
  http_get :: "string \<Rightarrow> goerr + response"
  html_parse :: "bytes \<Rightarrow> goerr + node list"
  zip_reader :: "bytes \<Rightarrow> goerr + zfile list"
  sjis_decode :: "bytes \<Rightarrow> goerr + bytes"

record world =
  gets :: "string list"
  stdout :: "string list"
  stderr :: "string list"
  exit_code :: "nat option"

section \<open>Library calls with effects\<close>

text \<open>\<open>http.Get(u)\<close>: one request, recorded in the world.\<close>

definition get :: "web \<Rightarrow> string \<Rightarrow> world \<Rightarrow> (goerr + response) \<times> world" where
  "get wb u w = (http_get wb u, w\<lparr>gets := gets w @ [u]\<rparr>)"

text \<open>\<open>goquery.NewDocumentFromReader(res.Body)\<close>: read the body, parse it.\<close>

definition new_document :: "web \<Rightarrow> response \<Rightarrow> goerr + node list" where
  "new_document wb res = (case body res of Inl e \<Rightarrow> Inl e | Inr b \<Rightarrow> html_parse wb b)"

section \<open>findAuthorAndZIP (lines 29-64)\<close>

text \<open>Line 40: the text of the first cell matched by the author selector.\<close>

definition author_of :: "node list \<Rightarrow> string" where
  "author_of doc = sel_text (sel_first (find_sel doc author_sel))"

text \<open>Lines 42-48: \<open>zipURL\<close> is overwritten by every download-table anchor whose href ends in \<open>.zip\<close>.\<close>

definition last_zip_href :: "node list \<Rightarrow> string" where
  "last_zip_href doc =
     foldl (\<lambda>z l. let href = attr_or [l] ''href'' [] in if has_suffix href ''.zip'' then href else z)
           [] (find_sel doc download_sel)"

text \<open>Lines 50-63: the URL returned for a found href.\<close>

definition resolve_zip :: "string \<Rightarrow> string \<Rightarrow> string" where
  "resolve_zip siteURL zipURL =
     (if zipURL = [] then []
      else if has_suffix zipURL ''http://'' \<or> has_suffix zipURL ''https://'' then zipURL
      else (case url_parse siteURL of
              Inl _ \<Rightarrow> []
            | Inr u \<Rightarrow> url_string (u\<lparr>path := path_join [path_dir (path u), zipURL]\<rparr>)))"

definition find_author_and_zip :: "web \<Rightarrow> string \<Rightarrow> world \<Rightarrow> (string \<times> string) \<times> world" where
  "find_author_and_zip wb siteURL w =
     (let (r, w1) = get wb siteURL w in
      case r of
        Inl _ \<Rightarrow> (([], []), w1)
      | Inr res \<Rightarrow>
          (case new_document wb res of
             Inl _ \<Rightarrow> (([], []), w1)
           | Inr doc \<Rightarrow> ((author_of doc, resolve_zip siteURL (last_zip_href doc)), w1)))"

section \<open>findEntries (lines 66-101)\<close>

text \<open>Line 86: the detail-page URL rebuilt from the two identifiers.\<close>

definition page_url :: "string \<Rightarrow> string \<Rightarrow> string" where
  "page_url a t = ''https://www.aozora.gr.jp/cards/'' @ a @ ''/card'' @ t @ ''.html''"

text \<open>Lines 80-98: the body of the \<open>Each\<close> callback, on the entries collected so far.\<close>

definition entry_step :: "web \<Rightarrow> string \<Rightarrow> entry list \<times> world \<Rightarrow> located \<Rightarrow> entry list \<times> world" where
  "entry_step wb siteURL acc l =
     (let (es, w) = acc; token = card_tokens (attr_or [l] ''href'' []) in
      if length token \<noteq> 3 then (es, w)
      else (let title = sel_text [l];
                pageURL = page_url (token ! 1) (token ! 2);
                ((author, zipURL), w') = find_author_and_zip wb pageURL w
            in if zipURL \<noteq> []
               then (es @ [\<lparr>autor_id = token ! 1, author = author, title_id = token ! 2,
                            title = title, site_url = siteURL, zip_url = zipURL\<rparr>], w')
               else (es, w')))"

definition find_entries :: "web \<Rightarrow> string \<Rightarrow> world \<Rightarrow> (goerr + entry list) \<times> world" where
  "find_entries wb siteURL w =
     (let (r, w1) = get wb siteURL w in
      case r of
        Inl e \<Rightarrow> (Inl e, w1)
      | Inr res \<Rightarrow>
          (case new_document wb res of
             Inl e \<Rightarrow> (Inl e, w1)
           | Inr doc \<Rightarrow>
               (let (es, w2) = foldl (entry_step wb siteURL) ([], w1) (find_sel doc list_sel)
                in (Inr es, w2))))"

section \<open>extractText (lines 103-142)\<close>

text \<open>
  Lines 119-139: the first file whose \<open>path.Ext\<close> is \<open>.txt\<close> is opened,
  read and decoded, and its text returned; any error on the way is returned.
  When no file qualifies the loop ends and line 141 returns the archive URL
  with \<open>err\<close>, which is nil there (the last assignment to it, line 114,
  succeeded).
\<close>

fun txt_loop :: "web \<Rightarrow> string \<Rightarrow> zfile list \<Rightarrow> goerr + bytes" where
  "txt_loop wb zipURL [] = Inr zipURL"
| "txt_loop wb zipURL (f # fs) =
     (if path_ext (zname f) = ''.txt'' then
        (case zopen f of
           Inl e \<Rightarrow> Inl e
         | Inr rd \<Rightarrow> (case rd of
                         Inl e \<Rightarrow> Inl e
                       | Inr b \<Rightarrow> sjis_decode wb b))
      else txt_loop wb zipURL fs)"

definition extract_text :: "web \<Rightarrow> string \<Rightarrow> world \<Rightarrow> (goerr + bytes) \<times> world" where
  "extract_text wb zipURL w =
     (let (r, w1) = get wb zipURL w in
      case r of
        Inl e \<Rightarrow> (Inl e, w1)
      | Inr res \<Rightarrow>
          (case body res of
             Inl e \<Rightarrow> (Inl e, w1)
           | Inr b \<Rightarrow>
               (case zip_reader wb b of
                  Inl e \<Rightarrow> (Inl e, w1)
                | Inr files \<Rightarrow> (txt_loop wb zipURL files, w1))))"

section \<open>main (lines 144-160)\<close>

definition list_url :: string where
  "list_url = ''https://www.aozora.gr.jp/index_pages/person879.html''"

text \<open>Lines 151-159: one iteration; an error is logged and the loop continues.\<close>

definition main_step :: "web \<Rightarrow> world \<Rightarrow> entry \<Rightarrow> world" where
  "main_step wb w e =
     (let (r, w1) = extract_text wb (zip_url e) w in
      case r of
        Inl err \<Rightarrow> w1\<lparr>stderr := stderr w1 @ [err]\<rparr>
      | Inr content \<Rightarrow> w1\<lparr>stdout := stdout w1 @ [site_url e, content]\<rparr>)"

text \<open>\<open>log.Fatal\<close> logs and exits with status 1; a normal return exits with 0.\<close>

definition main :: "web \<Rightarrow> world \<Rightarrow> world" where
  "main wb w =
     (let (r, w1) = find_entries wb list_url w in
      case r of
        Inl err \<Rightarrow> w1\<lparr>stderr := stderr w1 @ [err], exit_code := Some 1\<rparr>
      | Inr entries \<Rightarrow> (foldl (main_step wb) w1 entries)\<lparr>exit_code := Some 0\<rparr>)"

section \<open>World-free specifications\<close>

text \<open>
  What each function computes, without the world: the network and decoders
  are functions, so a function's result depends only on its arguments, and
  its only effect is the requests it issues.
\<close>

definition detail_of :: "web \<Rightarrow> string \<Rightarrow> string \<times> string" where
  "detail_of wb u =
     (case http_get wb u of
        Inl _ \<Rightarrow> ([], [])
      | Inr res \<Rightarrow> (case new_document wb res of
                      Inl _ \<Rightarrow> ([], [])
                    | Inr doc \<Rightarrow> (author_of doc, resolve_zip u (last_zip_href doc))))"

definition anchor_tokens :: "located \<Rightarrow> string list" where
  "anchor_tokens l = card_tokens (attr_or [l] ''href'' [])"

definition anchor_pages :: "located \<Rightarrow> string list" where
  "anchor_pages l =
     (let token = anchor_tokens l in
      if length token \<noteq> 3 then [] else [page_url (token ! 1) (token ! 2)])"

definition anchor_entry :: "web \<Rightarrow> string \<Rightarrow> located \<Rightarrow> entry list" where
  "anchor_entry wb siteURL l =
     (let token = anchor_tokens l in
      if length token \<noteq> 3 then []
      else (let (au, z) = detail_of wb (page_url (token ! 1) (token ! 2)) in
            if z \<noteq> [] then [\<lparr>autor_id = token ! 1, author = au, title_id = token ! 2,
                              title = sel_text [l], site_url = siteURL, zip_url = z\<rparr>]
            else []))"

definition extract_of :: "web \<Rightarrow> string \<Rightarrow> goerr + bytes" where
  "extract_of wb z =
     (case http_get wb z of
        Inl e \<Rightarrow> Inl e
      | Inr res \<Rightarrow> (case body res of
                      Inl e \<Rightarrow> Inl e
                    | Inr b \<Rightarrow> (case zip_reader wb b of
                                  Inl e \<Rightarrow> Inl e
                                | Inr files \<Rightarrow> txt_loop wb z files)))"

definition out_lines :: "web \<Rightarrow> entry \<Rightarrow> string list" where
  "out_lines wb e = (case extract_of wb (zip_url e) of Inl _ \<Rightarrow> [] | Inr c \<Rightarrow> [site_url e, c])"

definition err_lines :: "web \<Rightarrow> entry \<Rightarrow> string list" where
  "err_lines wb e = (case extract_of wb (zip_url e) of Inl err \<Rightarrow> [err] | Inr _ \<Rightarrow> [])"

text \<open>
  The same network with every response's status code replaced by \<open>s\<close>:
  the code reads \<open>res.Body\<close> after \<open>http.Get\<close> and never \<open>res.StatusCode\<close>.
\<close>

definition with_status :: "nat \<Rightarrow> web \<Rightarrow> web" where
  "with_status s wb = wb\<lparr>http_get := (\<lambda>u. map_sum id (\<lambda>r. r\<lparr>status := s\<rparr>) (http_get wb u))\<rparr>"

section \<open>Refinement lemmas\<close>

lemma find_author_and_zip_eq:
  "find_author_and_zip wb u w = (detail_of wb u, w\<lparr>gets := gets w @ [u]\<rparr>)"
  by (simp add: find_author_and_zip_def detail_of_def get_def split: sum.splits)

lemma entry_step_eq:
  "entry_step wb s (es, w) l =
     (es @ anchor_entry wb s l, w\<lparr>gets := gets w @ anchor_pages l\<rparr>)"
  by (simp add: entry_step_def anchor_entry_def anchor_pages_def anchor_tokens_def
                find_author_and_zip_eq Let_def split: prod.splits)

lemma entry_fold_eq:
  "foldl (entry_step wb s) (es, w) ls =
     (es @ concat (map (anchor_entry wb s) ls), w\<lparr>gets := gets w @ concat (map anchor_pages ls)\<rparr>)"
  by (induction ls arbitrary: es w) (simp_all add: entry_step_eq)

lemma extract_text_eq:
  "extract_text wb z w = (extract_of wb z, w\<lparr>gets := gets w @ [z]\<rparr>)"
  by (simp add: extract_text_def extract_of_def get_def split: sum.splits)

lemma main_step_eq:
  "main_step wb w e =
     w\<lparr>gets := gets w @ [zip_url e], stdout := stdout w @ out_lines wb e,
       stderr := stderr w @ err_lines wb e\<rparr>"
  by (simp add: main_step_def extract_text_eq out_lines_def err_lines_def split: sum.splits)

lemma main_fold_eq:
  "foldl (main_step wb) w es =
     w\<lparr>gets := gets w @ map zip_url es, stdout := stdout w @ concat (map (out_lines wb) es),
       stderr := stderr w @ concat (map (err_lines wb) es)\<rparr>"
  by (induction es arbitrary: w) (simp_all add: main_step_eq)

lemma txt_loop_find:
  "txt_loop wb z fs =
     (case find (\<lambda>f. path_ext (zname f) = ''.txt'') fs of
        None \<Rightarrow> Inr z
      | Some f \<Rightarrow> (case zopen f of Inl e \<Rightarrow> Inl e
                   | Inr (Inl e) \<Rightarrow> Inl e
                   | Inr (Inr t) \<Rightarrow> sjis_decode wb t))"
  by (induction fs) (auto split: sum.splits)

lemma txt_loop_suffix:
  "txt_loop wb z fs =
     (case find (\<lambda>f. suffix ''.txt'' (zname f)) fs of
        None \<Rightarrow> Inr z
      | Some f \<Rightarrow> (case zopen f of Inl e \<Rightarrow> Inl e
                   | Inr (Inl e) \<Rightarrow> Inl e
                   | Inr (Inr t) \<Rightarrow> sjis_decode wb t))"
  by (simp add: txt_loop_find path_ext_eq_txt)

lemma find_entries_eq:
  "find_entries wb s w =
     (case http_get wb s of
        Inl e \<Rightarrow> (Inl e, w\<lparr>gets := gets w @ [s]\<rparr>)
      | Inr res \<Rightarrow>
          (case new_document wb res of
             Inl e \<Rightarrow> (Inl e, w\<lparr>gets := gets w @ [s]\<rparr>)
           | Inr doc \<Rightarrow>
               (Inr (concat (map (anchor_entry wb s) (find_sel doc list_sel))),
                w\<lparr>gets := gets w @ s # concat (map anchor_pages (find_sel doc list_sel))\<rparr>)))"
  by (simp add: find_entries_def get_def entry_fold_eq split: sum.splits)

lemma anchor_entry_wf:
  assumes "e \<in> set (anchor_entry wb s l)"
  shows "zip_url e \<noteq> [] \<and> digits (autor_id e) \<and> digits (title_id e) \<and> site_url e = s"
proof -
  from assms have "anchor_tokens l \<noteq> []"
    by (auto simp: anchor_entry_def Let_def split: if_splits)
  then obtain m A T where t: "anchor_tokens l = [m, A, T]" and d: "digits A" "digits T"
    using card_tokens_digits [of "attr_or [l] ''href'' []"] by (auto simp: anchor_tokens_def)
  from assms t have "autor_id e = A \<and> title_id e = T \<and> site_url e = s \<and> zip_url e \<noteq> []"
    by (auto simp: anchor_entry_def Let_def split: prod.splits if_splits)
  with d show ?thesis by simp
qed

lemma foldl_last_match:
  "foldl (\<lambda>z l. let h = f l in if P h then h else z) z0 ls =
     (let hs = filter P (map f ls) in if hs = [] then z0 else last hs)"
  by (induction ls arbitrary: z0) (auto simp: Let_def)

lemma zip_not_absolute:
  assumes "has_suffix z ''.zip''"
  shows "\<not> has_suffix z ''http://'' \<and> \<not> has_suffix z ''https://''"
proof -
  from assms have s: "suffix ''.zip'' z" by (simp add: has_suffix_iff)
  have "\<not> suffix p z" if "last p = CHR ''/''" and "p \<noteq> []" for p
  proof
    assume "suffix p z"
    from suffix_last_eq [OF s this] that have "last ''.zip'' = CHR ''/''" by simp
    then show False by simp
  qed
  then show ?thesis by (simp add: has_suffix_iff)
qed

lemma find_entries_world:
  "stdout (snd (find_entries wb s w)) = stdout w \<and> stderr (snd (find_entries wb s w)) = stderr w \<and>
   exit_code (snd (find_entries wb s w)) = exit_code w"
  by (simp add: find_entries_eq split: sum.splits)

lemma find_entries_Inr:
  assumes "fst (find_entries wb s w) = Inr es"
  shows "\<exists>res doc. http_get wb s = Inr res \<and> new_document wb res = Inr doc \<and>
                   es = concat (map (anchor_entry wb s) (find_sel doc list_sel))"
  using assms by (auto simp: find_entries_eq split: sum.splits)

lemma main_eq:
  "main wb w =
     (case fst (find_entries wb list_url w) of
        Inl err \<Rightarrow> (snd (find_entries wb list_url w))\<lparr>stderr := stderr w @ [err], exit_code := Some 1\<rparr>
      | Inr es \<Rightarrow> (snd (find_entries wb list_url w))\<lparr>
            gets := gets (snd (find_entries wb list_url w)) @ map zip_url es,
            stdout := stdout w @ concat (map (out_lines wb) es),
            stderr := stderr w @ concat (map (err_lines wb) es), exit_code := Some 0\<rparr>)"
proof -
  obtain r w1 where fe: "find_entries wb list_url w = (r, w1)"
    by (cases "find_entries wb list_url w")
  moreover have "stdout w1 = stdout w" and "stderr w1 = stderr w"
    using find_entries_world [of wb list_url w] fe by simp_all
  ultimately show ?thesis by (cases r) (simp_all add: main_def main_fold_eq)
qed

lemma out_lines_site:
  "\<forall>e \<in> set es. site_url e = u \<Longrightarrow>
   concat (map (out_lines wb) es) =
     concat (map (\<lambda>c. [u, c]) (concat (map (\<lambda>e. case extract_of wb (zip_url e) of Inl _ \<Rightarrow> [] | Inr c \<Rightarrow> [c]) es)))"
  by (induction es) (auto simp: out_lines_def split: sum.splits)

lemma entries_wf:
  assumes "fst (find_entries wb s w) = Inr es" and "e \<in> set es"
  shows "zip_url e \<noteq> [] \<and> digits (autor_id e) \<and> digits (title_id e) \<and> site_url e = s"
proof -
  from find_entries_Inr [OF assms(1)] obtain doc where
    "es = concat (map (anchor_entry wb s) (find_sel doc list_sel))" by blast
  with assms(2) obtain l where "e \<in> set (anchor_entry wb s l)" by auto
  then show ?thesis by (rule anchor_entry_wf)
qed

subsection \<open>Resolution of the download link on a detail page\<close>

lemma url_parse_card:
  assumes "digits A" and "digits T"
  shows "url_parse (page_url A T) =
           Inr (empty_url\<lparr>scheme := ''https'', host := ''www.aozora.gr.jp'',
                           path := ''/cards/'' @ A @ ''/card'' @ T @ ''.html''\<rparr>)"
proof -
  from assms have dA: "list_all is_digit A" and dT: "list_all is_digit T" by (simp_all add: digits_def)
  let ?p = "''/cards/'' @ A @ ''/card'' @ T @ ''.html''"
  let ?rest = "''//www.aozora.gr.jp'' @ ?p"
  have sch: "get_scheme_loop [] (''https://www.aozora.gr.jp/cards/'' @ A @ ''/card'' @ T @ ''.html'') =
             Inr (''https'', ?rest)"
    by (simp add: is_alpha_def is_digit_def byte_def)
  have q: "\<not> (has_suffix ?rest ''?'')"
    by (simp add: has_suffix_iff suffix_single)
  have cq: "cut ?rest CHR ''?'' = (?rest, [])"
    by (rule cut_notin) (simp add: digits_no [OF dA] digits_no [OF dT])
  have ch: "cut (''https://www.aozora.gr.jp/cards/'' @ A @ ''/card'' @ T @ ''.html'') CHR ''#'' =
            (''https://www.aozora.gr.jp/cards/'' @ A @ ''/card'' @ T @ ''.html'', [])"
    by (rule cut_notin) (simp add: digits_no [OF dA] digits_no [OF dT])
  have ctl: "\<not> has_ctl (''https://www.aozora.gr.jp/cards/'' @ A @ ''/card'' @ T @ ''.html'')"
    using digits_no(5) [OF dA] digits_no(5) [OF dT] by (simp add: has_ctl_def byte_def [symmetric]) (simp add: byte_def)
  have rs: "parse_rest (empty_url\<lparr>scheme := ''https'', raw_query := []\<rparr>) ?rest =
            Inr (empty_url\<lparr>scheme := ''https'', host := ''www.aozora.gr.jp'', path := ?p\<rparr>)"
    by (simp add: parse_rest_def has_prefix_iff parse_authority_def set_path_plain empty_url_def
                  digits_no [OF dA] digits_no [OF dT] digit_path_safe [OF dA] digit_path_safe [OF dT]
                  path_chars_safe del: unescape.simps)
  show ?thesis
    using sch q cq ch ctl rs
    by (simp add: page_url_def url_parse_def parse_def to_lower_def byte_def)
qed

lemma host_escape: "escape ''www.aozora.gr.jp'' EncodeHost = ''www.aozora.gr.jp''"
  by (simp add: escape_def should_escape_def is_alnum_def is_alpha_def is_digit_def byte_def)

lemma resolve_zip_card_eq:
  assumes "digits A" and "digits T" and "has_suffix z ''.zip''"
  shows "resolve_zip (page_url A T) z =
           ''https://www.aozora.gr.jp'' @ escape (clean_ref (''/cards/'' @ A @ ''/'' @ z)) EncodePath"
proof -
  from assms(3) have z: "z \<noteq> []" by (auto simp: has_suffix_def)
  obtain r where r: "clean_ref (''/cards/'' @ A @ ''/'' @ z) = CHR ''/'' # r"
    using clean_ref_rooted by fastforce
  have "resolve_zip (page_url A T) z =
          url_string (empty_url\<lparr>scheme := ''https'', host := ''www.aozora.gr.jp'',
                                path := clean_ref (''/cards/'' @ A @ ''/'' @ z)\<rparr>)"
    using zip_not_absolute [OF assms(3)] z url_parse_card [OF assms(1,2)]
      path_dir_card [OF assms(1,2)] path_join_card [OF z]
    by (simp add: resolve_zip_def page_url_def)
  also have "\<dots> = ''https://www.aozora.gr.jp'' @ escape (clean_ref (''/cards/'' @ A @ ''/'' @ z)) EncodePath"
    using r by (simp add: url_string_def escaped_path_def empty_url_def host_escape escape_slash)
  finally show ?thesis .
qed

lemma last_zip_href_suffix:
  assumes "last_zip_href doc \<noteq> []"
  shows "has_suffix (last_zip_href doc) ''.zip''"
proof -
  let ?hs = "filter (\<lambda>h. has_suffix h ''.zip'') (map (\<lambda>l. attr_or [l] ''href'' []) (find_sel doc download_sel))"
  have eq: "last_zip_href doc = (let hs = ?hs in if hs = [] then [] else last hs)"
    unfolding last_zip_href_def by (rule foldl_last_match)
  with assms have ne: "?hs \<noteq> []" and l: "last_zip_href doc = last ?hs"
    by (simp_all add: Let_def split: if_splits)
  from ne have "last ?hs \<in> set ?hs" by (rule last_in_set)
  then have "has_suffix (last ?hs) ''.zip''" by (simp only: set_filter) blast
  with l show ?thesis by simp
qed

lemma resolve_zip_Nil [simp]: "resolve_zip u [] = []"
  by (simp add: resolve_zip_def)

lemma detail_of_zip:
  assumes "snd (detail_of wb u) \<noteq> []"
  shows "\<exists>h. has_suffix h ''.zip'' \<and> snd (detail_of wb u) = resolve_zip u h"
  using assms last_zip_href_suffix
  by (auto simp: detail_of_def split: sum.splits) (metis resolve_zip_Nil)

lemma anchor_entry_zip:
  assumes "e \<in> set (anchor_entry wb s l)"
  shows "\<exists>h. has_suffix h ''.zip'' \<and> zip_url e = resolve_zip (page_url (autor_id e) (title_id e)) h"
proof -
  let ?u = "page_url (anchor_tokens l ! 1) (anchor_tokens l ! 2)"
  obtain au z where d: "detail_of wb ?u = (au, z)" by (cases "detail_of wb ?u")
  with assms have "z \<noteq> []" "zip_url e = z" "autor_id e = anchor_tokens l ! 1" "title_id e = anchor_tokens l ! 2"
    by (auto simp: anchor_entry_def Let_def split: if_splits)
  with detail_of_zip [of wb ?u] d show ?thesis by auto
qed

subsection \<open>The status code is never read\<close>

lemma http_get_status:
  "http_get (with_status s wb) u =
     (case http_get wb u of Inl e \<Rightarrow> Inl e | Inr r \<Rightarrow> Inr (r\<lparr>status := s\<rparr>))"
  by (simp add: with_status_def split: sum.split)

lemma with_status_fields [simp]:
  "html_parse (with_status s wb) = html_parse wb" "zip_reader (with_status s wb) = zip_reader wb"
  "sjis_decode (with_status s wb) = sjis_decode wb"
  by (simp_all add: with_status_def)

lemma new_document_status [simp]: "new_document wb (res\<lparr>status := s\<rparr>) = new_document wb res"
  by (simp add: new_document_def)

lemma new_document_with_status [simp]: "new_document (with_status s wb) = new_document wb"
  by (simp add: new_document_def fun_eq_iff split: sum.split)

lemma txt_loop_status [simp]: "txt_loop (with_status s wb) z fs = txt_loop wb z fs"
  by (induction fs) (simp_all split: sum.split)

lemma detail_of_status [simp]: "detail_of (with_status s wb) u = detail_of wb u"
  by (simp add: detail_of_def http_get_status split: sum.split)

lemma extract_of_status [simp]: "extract_of (with_status s wb) z = extract_of wb z"
  by (simp add: extract_of_def http_get_status split: sum.split)

lemma anchor_entry_status [simp]: "anchor_entry (with_status s wb) = anchor_entry wb"
  unfolding anchor_entry_def detail_of_status ..

lemma find_entries_status [simp]: "find_entries (with_status s wb) u w = find_entries wb u w"
  by (simp add: find_entries_eq http_get_status split: sum.split)

lemma lines_status [simp]:
  "out_lines (with_status s wb) = out_lines wb" "err_lines (with_status s wb) = err_lines wb"
  by (simp_all add: out_lines_def err_lines_def fun_eq_iff)

section \<open>Properties of the collector\<close>

text \<open>
  C1: findEntries refines the list comprehension: on a fetched and parsed list
  page it returns, in document order, one entry for each \<open>ol li a\<close> anchor
  whose href matches and whose detail page yields a ZIP URL, and its only
  effect is the GET of the list page followed by the GETs of the detail pages
  of the matching anchors, in document order; a fetch or parse error of the
  list page is returned after the one request.
\<close>

theorem find_entries_refines:
  "find_entries wb s w =
     (case http_get wb s of
        Inl e \<Rightarrow> (Inl e, w\<lparr>gets := gets w @ [s]\<rparr>)
      | Inr res \<Rightarrow>
          (case new_document wb res of
             Inl e \<Rightarrow> (Inl e, w\<lparr>gets := gets w @ [s]\<rparr>)
           | Inr doc \<Rightarrow>
               (Inr (concat (map (anchor_entry wb s) (find_sel doc list_sel))),
                w\<lparr>gets := gets w @ s # concat (map anchor_pages (find_sel doc list_sel))\<rparr>)))"
  by (rule find_entries_eq)

text \<open>
  C2: every entry findEntries returns has a non-empty ZipURL (works without
  a download link are dropped), digit-string AutorID and TitleID, and as
  SiteURL the list-page URL it was called with.
\<close>

theorem entries_wellformed:
  assumes "fst (find_entries wb s w) = Inr es" and "e \<in> set es"
  shows "zip_url e \<noteq> [] \<and> digits (autor_id e) \<and> digits (title_id e) \<and> site_url e = s"
  using assms by (rule entries_wf)

text \<open>
  C5: findAuthorAndZIP keeps the last \<open>.zip\<close> href of the download table in
  document order (the empty string when there is none).
\<close>

theorem last_zip_href_last:
  "last_zip_href doc =
     (let hs = filter (\<lambda>h. has_suffix h ''.zip'') (map (\<lambda>l. attr_or [l] ''href'' []) (find_sel doc download_sel))
      in if hs = [] then [] else last hs)"
  unfolding last_zip_href_def by (rule foldl_last_match)

text \<open>
  C6: the absolute-URL test of line 53 uses \<open>HasSuffix\<close>, which no href
  ending in \<open>.zip\<close> can pass, so every found href, absolute or relative, is
  joined onto the directory of the detail page.
\<close>

theorem resolve_zip_always_joins:
  assumes "has_suffix z ''.zip''"
  shows "resolve_zip s z =
           (case url_parse s of
              Inl _ \<Rightarrow> []
            | Inr u \<Rightarrow> url_string (u\<lparr>path := path_join [path_dir (path u), z]\<rparr>))"
proof -
  from assms have "z \<noteq> []" by (auto simp: has_suffix_def)
  with zip_not_absolute [OF assms] show ?thesis by (simp add: resolve_zip_def)
qed

text \<open>
  C7: once the archive is fetched, read and opened, extractText returns the
  decoded text of the first file in archive order whose name ends in
  \<open>.txt\<close>, or the error of opening, reading or decoding that file; later
  \<open>.txt\<close> files are never tried.
\<close>

theorem extract_text_first_txt:
  assumes "http_get wb z = Inr res" and "body res = Inr b" and "zip_reader wb b = Inr fs"
  shows "fst (extract_text wb z w) =
           (case find (\<lambda>f. suffix ''.txt'' (zname f)) fs of
              None \<Rightarrow> Inr z
            | Some f \<Rightarrow> (case zopen f of Inl e \<Rightarrow> Inl e
                         | Inr (Inl e) \<Rightarrow> Inl e
                         | Inr (Inr t) \<Rightarrow> sjis_decode wb t))"
  using assms by (simp add: extract_text_eq extract_of_def txt_loop_suffix)

text \<open>
  C8: an archive without a \<open>.txt\<close> file is not an error: extractText
  returns the archive URL itself as the content (line 141, \<open>err\<close> is nil).
\<close>

theorem extract_text_fallback:
  assumes "http_get wb z = Inr res" and "body res = Inr b" and "zip_reader wb b = Inr fs"
    and "\<not> list_ex (\<lambda>f. suffix ''.txt'' (zname f)) fs"
  shows "fst (extract_text wb z w) = Inr z"
proof -
  from assms(4) have "find (\<lambda>f. suffix ''.txt'' (zname f)) fs = None"
    by (simp add: find_None_iff list_ex_iff)
  with assms(1-3) show ?thesis by (simp add: extract_text_eq extract_of_def txt_loop_suffix)
qed

text \<open>
  C9: a failed GET, a failed read of the body and an unreadable archive are
  returned as extractText's error, unchanged.
\<close>

theorem extract_text_errors:
  assumes "http_get wb z = Inl e \<or> (\<exists>res. http_get wb z = Inr res \<and> body res = Inl e) \<or>
           (\<exists>res b. http_get wb z = Inr res \<and> body res = Inr b \<and> zip_reader wb b = Inl e)"
  shows "fst (extract_text wb z w) = Inl e"
  using assms by (auto simp: extract_text_eq extract_of_def)

text \<open>
  C10: when the list page is processed, main prints, for each entry in order,
  its SiteURL and text if its extraction succeeds and logs the error
  otherwise; an entry's lines depend on that entry alone, so a failing
  archive never stops or changes the output of the others; the exit status is 0.
\<close>

theorem main_output:
  assumes "fst (find_entries wb list_url w) = Inr es"
  shows "stdout (main wb w) = stdout w @ concat (map (out_lines wb) es) \<and>
         stderr (main wb w) = stderr w @ concat (map (err_lines wb) es) \<and>
         exit_code (main wb w) = Some 0"
  using assms find_entries_world [of wb list_url w] by (simp add: main_eq)

text \<open>
  C11: a failure to fetch or parse the list page is fatal: it is logged, the
  exit status is 1 and nothing is printed.
\<close>

theorem main_fatal:
  assumes "fst (find_entries wb list_url w) = Inl e"
  shows "stdout (main wb w) = stdout w \<and> stderr (main wb w) = stderr w @ [e] \<and>
         exit_code (main wb w) = Some 1"
  using assms find_entries_world [of wb list_url w] by (simp add: main_eq)

text \<open>
  C12: the URL printed before each text is always the list-page URL, never
  the work's detail page, since SiteURL is set to findEntries' argument.
\<close>

theorem main_prints_list_url:
  assumes "fst (find_entries wb list_url w) = Inr es"
  shows "\<exists>cs. stdout (main wb w) = stdout w @ concat (map (\<lambda>c. [list_url, c]) cs)"
proof -
  have "\<forall>e \<in> set es. site_url e = list_url"
    using entries_wf [OF assms] by blast
  then have "concat (map (out_lines wb) es) =
     concat (map (\<lambda>c. [list_url, c]) (concat (map (\<lambda>e. case extract_of wb (zip_url e) of Inl _ \<Rightarrow> [] | Inr c \<Rightarrow> [c]) es)))"
    by (rule out_lines_site)
  with assms find_entries_world [of wb list_url w] show ?thesis
    by (auto simp: main_eq)
qed

text \<open>
  C13: the requests of a run, in order: the list page, the detail pages of
  the matching anchors in document order, then the archives of the entries
  in order.
\<close>

theorem main_requests:
  assumes "http_get wb list_url = Inr res" and "new_document wb res = Inr doc"
  shows "gets (main wb w) =
           gets w @ [list_url] @ concat (map anchor_pages (find_sel doc list_sel)) @
           map zip_url (concat (map (anchor_entry wb list_url) (find_sel doc list_sel)))"
  using assms by (simp add: main_eq find_entries_eq)

text \<open>
  C14: findEntries prints and logs nothing: a detail page that cannot be
  fetched or parsed silently removes the work from the result.
\<close>

theorem find_entries_silent:
  "stdout (snd (find_entries wb s w)) = stdout w \<and> stderr (snd (find_entries wb s w)) = stderr w"
  using find_entries_world [of wb s w] by simp

text \<open>
  C20: on a detail page \<open>/cards/A/cardT.html\<close>, findAuthorAndZIP resolves
  every download href ending in \<open>.zip\<close> to the cleaned path
  \<open>/cards/A/href\<close> on \<open>https://www.aozora.gr.jp\<close>, percent-escaped as
  \<open>URL.String\<close> does: \<open>url.Parse\<close>, \<open>path.Dir\<close>, \<open>path.Join\<close> and
  \<open>String\<close> composed.
\<close>

theorem resolve_zip_card:
  assumes "digits A" and "digits T" and "has_suffix z ''.zip''"
  shows "resolve_zip (page_url A T) z =
           ''https://www.aozora.gr.jp'' @ escape (clean_ref (''/cards/'' @ A @ ''/'' @ z)) EncodePath"
  using assms by (rule resolve_zip_card_eq)

text \<open>
  C26: main requests the archive of every entry findEntries returned, whatever
  happened to the entries before it: a failed extraction is logged and the
  loop goes on.
\<close>

theorem main_fetches_every_archive:
  assumes "fst (find_entries wb list_url w) = Inr es" and "e \<in> set es"
  shows "zip_url e \<in> set (gets (main wb w))"
  using assms by (simp add: main_eq)

text \<open>
  C31: no status code influences the program: a 404 or 500 response whose
  body can be read is processed exactly like a 200 one, by every request of
  the run, so main's output, requests and exit status are those of the same
  network answering 200 everywhere.
\<close>

theorem main_ignores_status: "main (with_status s wb) w = main wb w"
  unfolding main_eq find_entries_status lines_status ..
end
