(* ===== verification/Examples.thy ===== *)
theory Examples
  imports Collector
begin

text \<open>
  A small concrete web on which the collector's theorems are instantiated:
  an author index with two works and one unrelated link, the detail page of
  the first work (author table and download table) and of the second (no
  download link), and archives with and without a text file.  A response's
  body is the requested URL, and the HTML parser and ZIP reader map those
  bodies to the documents and archives below.
\<close>

definition demo_page :: string where
  "demo_page = page_url ''000879'' ''127''"

definition demo_zip :: string where
  "demo_zip = ''https://www.aozora.gr.jp/cards/000879/files/127_ruby_150.zip''"

definition demo_list_doc :: "node list" where
  "demo_list_doc =
     [Elem ''html'' [] [Elem ''body'' [] [Elem ''ol'' [] [
        Elem ''li'' [] [Elem ''a'' [(''href'', ''../cards/000879/card127.html'')] [Txt ''Rashomon'']],
        Elem ''li'' [] [Elem ''a'' [(''href'', ''../cards/000879/card128.html'')] [Txt ''Hana'']],
        Elem ''li'' [] [Elem ''a'' [(''href'', ''/index.html'')] [Txt ''Top'']]]]]]"

definition demo_detail_doc :: "node list" where
  "demo_detail_doc =
     [Elem ''html'' [] [Elem ''body'' [] [
        Elem ''table'' [(''summary'', sakka_data)] [Elem ''tbody'' [] [
          Elem ''tr'' [] [Elem ''td'' [] [Txt ''Category'']],
          Elem ''tr'' [] [Elem ''td'' [] [Txt ''Name''], Elem ''td'' [] [Txt ''Akutagawa'']]]],
        Elem ''table'' [(''class'', ''download'')] [Elem ''tbody'' [] [Elem ''tr'' [] [Elem ''td'' [] [
          Elem ''a'' [(''href'', ''./files/127_ruby_150.zip'')] [Txt ''zip'']]]]]]]]"

definition demo_files :: "zfile list" where
  "demo_files = [\<lparr>zname = ''readme.md'', zopen = Inr (Inr ''readme'')\<rparr>,
                 \<lparr>zname = ''rashomon.txt'', zopen = Inr (Inr ''text of the work'')\<rparr>]"

definition demo_three :: "zfile list" where
  "demo_three = [\<lparr>zname = ''readme.txt'', zopen = Inr (Inr ''read me first'')\<rparr>,
                 \<lparr>zname = ''work.txt'', zopen = Inr (Inr ''the work'')\<rparr>,
                 \<lparr>zname = ''cover.png'', zopen = Inr (Inr ''PNG'')\<rparr>]"

definition demo_web :: web where
  "demo_web =
     \<lparr>http_get = (\<lambda>u. Inr \<lparr>status = 200, body = Inr u\<rparr>),
      html_parse = (\<lambda>b. if b = list_url then Inr demo_list_doc
                        else if b = demo_page then Inr demo_detail_doc else Inr []),
      zip_reader = (\<lambda>b. if b = demo_zip then Inr demo_files
                        else if b = ''https://example.org/empty.zip'' then Inr [hd demo_files]
                        else if b = ''https://example.org/three.zip'' then Inr demo_three
                        else Inl ''zip: not a valid zip file''),
      sjis_decode = (\<lambda>b. Inr b)\<rparr>"

definition demo_down :: web where
  "demo_down = demo_web\<lparr>http_get := (\<lambda>u. Inl ''dial tcp: connection refused'')\<rparr>"

definition w0 :: world where
  "w0 = \<lparr>gets = [], stdout = [], stderr = [], exit_code = None\<rparr>"

definition demo_entry :: entry where
  "demo_entry = \<lparr>autor_id = ''000879'', author = ''Akutagawa'', title_id = ''127'', title = ''Rashomon'',
                 site_url = list_url, zip_url = demo_zip\<rparr>"

lemma demo_find_entries: "fst (find_entries demo_web list_url w0) = Inr [demo_entry]"
  by code_simp

lemma demo_main_stdout: "stdout (main demo_web w0) = [list_url, ''text of the work'']"
  by code_simp

lemma demo_main_exit: "exit_code (main demo_web w0) = Some 0"
  by code_simp

lemma demo_list_down: "fst (find_entries demo_down list_url w0) = Inl ''dial tcp: connection refused''"
  by code_simp

lemma demo_extract: "fst (extract_text demo_web demo_zip w0) = Inr ''text of the work''"
  by code_simp

lemma demo_absolute_zip:
  "resolve_zip demo_page ''https://example.org/x.zip'' =
     ''https://www.aozora.gr.jp/cards/000879/https:/example.org/x.zip''"
  by code_simp

section \<open>Witnesses\<close>

theorem entries_wellformed_witness:
  "fst (find_entries demo_web list_url w0) = Inr [demo_entry] \<and> demo_entry \<in> set [demo_entry] \<and>
   zip_url demo_entry \<noteq> [] \<and> digits (autor_id demo_entry) \<and> digits (title_id demo_entry) \<and>
   site_url demo_entry = list_url"
  using entries_wellformed [OF demo_find_entries, of demo_entry] demo_find_entries by simp

theorem resolve_zip_always_joins_witness:
  "has_suffix ''https://example.org/x.zip'' ''.zip'' \<and>
   resolve_zip demo_page ''https://example.org/x.zip'' =
     (case url_parse demo_page of
        Inl _ \<Rightarrow> []
      | Inr u \<Rightarrow> url_string (u\<lparr>path := path_join [path_dir (path u), ''https://example.org/x.zip'']\<rparr>))"
proof -
  have h: "has_suffix ''https://example.org/x.zip'' ''.zip''" by code_simp
  show ?thesis using h resolve_zip_always_joins [OF h, of demo_page] by blast
qed

theorem extract_text_first_txt_witness:
  "http_get demo_web demo_zip = Inr \<lparr>status = 200, body = Inr demo_zip\<rparr> \<and>
   body \<lparr>status = 200, body = Inr demo_zip\<rparr> = Inr demo_zip \<and>
   zip_reader demo_web demo_zip = Inr demo_files \<and>
   fst (extract_text demo_web demo_zip w0) =
     (case find (\<lambda>f. suffix ''.txt'' (zname f)) demo_files of
        None \<Rightarrow> Inr demo_zip
      | Some f \<Rightarrow> (case zopen f of Inl e \<Rightarrow> Inl e
                   | Inr (Inl e) \<Rightarrow> Inl e
                   | Inr (Inr t) \<Rightarrow> sjis_decode demo_web t))"
proof -
  have h1: "http_get demo_web demo_zip = Inr \<lparr>status = 200, body = Inr demo_zip\<rparr>"
    by (simp add: demo_web_def)
  have h2: "body \<lparr>status = 200, body = Inr demo_zip\<rparr> = Inr demo_zip" by simp
  have h3: "zip_reader demo_web demo_zip = Inr demo_files" by (simp add: demo_web_def)
  show ?thesis using h1 h2 h3 extract_text_first_txt [OF h1 h2 h3, of w0] by blast
qed

theorem extract_text_fallback_witness:
  "http_get demo_web ''https://example.org/empty.zip'' =
     Inr \<lparr>status = 200, body = Inr ''https://example.org/empty.zip''\<rparr> \<and>
   body \<lparr>status = 200, body = Inr ''https://example.org/empty.zip''\<rparr> = Inr ''https://example.org/empty.zip'' \<and>
   zip_reader demo_web ''https://example.org/empty.zip'' = Inr [hd demo_files] \<and>
   \<not> list_ex (\<lambda>f. suffix ''.txt'' (zname f)) [hd demo_files] \<and>
   fst (extract_text demo_web ''https://example.org/empty.zip'' w0) = Inr ''https://example.org/empty.zip''"
proof -
  have h1: "http_get demo_web ''https://example.org/empty.zip'' =
     Inr \<lparr>status = 200, body = Inr ''https://example.org/empty.zip''\<rparr>"
    by (simp add: demo_web_def)
  have h2: "body \<lparr>status = 200, body = Inr ''https://example.org/empty.zip''\<rparr> =
     Inr ''https://example.org/empty.zip''" by simp
  have h3: "zip_reader demo_web ''https://example.org/empty.zip'' = Inr [hd demo_files]"
    by code_simp
  have h4: "\<not> list_ex (\<lambda>f. suffix ''.txt'' (zname f)) [hd demo_files]" by code_simp
  show ?thesis using h1 h2 h3 h4 extract_text_fallback [OF h1 h2 h3 h4, of w0] by blast
qed

theorem extract_text_errors_witness:
  "(http_get demo_web ''https://example.org/broken.zip'' = Inl ''zip: not a valid zip file'' \<or>
    (\<exists>res. http_get demo_web ''https://example.org/broken.zip'' = Inr res \<and>
           body res = Inl ''zip: not a valid zip file'') \<or>
    (\<exists>res b. http_get demo_web ''https://example.org/broken.zip'' = Inr res \<and> body res = Inr b \<and>
             zip_reader demo_web b = Inl ''zip: not a valid zip file'')) \<and>
   fst (extract_text demo_web ''https://example.org/broken.zip'' w0) = Inl ''zip: not a valid zip file''"
proof -
  have z: "zip_reader demo_web ''https://example.org/broken.zip'' = Inl ''zip: not a valid zip file''"
    by code_simp
  have h: "http_get demo_web ''https://example.org/broken.zip'' = Inl ''zip: not a valid zip file'' \<or>
    (\<exists>res. http_get demo_web ''https://example.org/broken.zip'' = Inr res \<and>
           body res = Inl ''zip: not a valid zip file'') \<or>
    (\<exists>res b. http_get demo_web ''https://example.org/broken.zip'' = Inr res \<and> body res = Inr b \<and>
             zip_reader demo_web b = Inl ''zip: not a valid zip file'')"
    using z by (simp add: demo_web_def)
  show ?thesis using h extract_text_errors [OF h, of w0] by blast
qed

theorem main_output_witness:
  "fst (find_entries demo_web list_url w0) = Inr [demo_entry] \<and>
   stdout (main demo_web w0) = stdout w0 @ concat (map (out_lines demo_web) [demo_entry]) \<and>
   stderr (main demo_web w0) = stderr w0 @ concat (map (err_lines demo_web) [demo_entry]) \<and>
   exit_code (main demo_web w0) = Some 0"
  using demo_find_entries main_output [OF demo_find_entries] by blast

theorem main_fatal_witness:
  "fst (find_entries demo_down list_url w0) = Inl ''dial tcp: connection refused'' \<and>
   stdout (main demo_down w0) = stdout w0 \<and>
   stderr (main demo_down w0) = stderr w0 @ [''dial tcp: connection refused''] \<and>
   exit_code (main demo_down w0) = Some 1"
  using demo_list_down main_fatal [OF demo_list_down] by blast

theorem main_prints_list_url_witness:
  "fst (find_entries demo_web list_url w0) = Inr [demo_entry] \<and>
   (\<exists>cs. stdout (main demo_web w0) = stdout w0 @ concat (map (\<lambda>c. [list_url, c]) cs))"
  using demo_find_entries main_prints_list_url [OF demo_find_entries] by blast

theorem main_requests_witness:
  "http_get demo_web list_url = Inr \<lparr>status = 200, body = Inr list_url\<rparr> \<and>
   new_document demo_web \<lparr>status = 200, body = Inr list_url\<rparr> = Inr demo_list_doc \<and>
   gets (main demo_web w0) =
     gets w0 @ [list_url] @ concat (map anchor_pages (find_sel demo_list_doc list_sel)) @
     map zip_url (concat (map (anchor_entry demo_web list_url) (find_sel demo_list_doc list_sel)))"
proof -
  have h1: "http_get demo_web list_url = Inr \<lparr>status = 200, body = Inr list_url\<rparr>"
    by (simp add: demo_web_def)
  have h2: "new_document demo_web \<lparr>status = 200, body = Inr list_url\<rparr> = Inr demo_list_doc"
    by code_simp
  show ?thesis using h1 h2 main_requests [OF h1 h2, of w0] by blast
qed

theorem resolve_zip_card_witness:
  "digits ''000879'' \<and> digits ''127'' \<and> has_suffix ''./files/127_ruby_150.zip'' ''.zip'' \<and>
   resolve_zip (page_url ''000879'' ''127'') ''./files/127_ruby_150.zip'' =
     ''https://www.aozora.gr.jp'' @
     escape (clean_ref (''/cards/'' @ ''000879'' @ ''/'' @ ''./files/127_ruby_150.zip'')) EncodePath"
proof -
  have h1: "digits ''000879''" by (simp add: digits_def is_digit_def byte_def)
  have h2: "digits ''127''" by (simp add: digits_def is_digit_def byte_def)
  have h3: "has_suffix ''./files/127_ruby_150.zip'' ''.zip''" by code_simp
  show ?thesis using h1 h2 h3 resolve_zip_card [OF h1 h2 h3] by blast
qed

theorem main_fetches_every_archive_witness:
  "fst (find_entries demo_web list_url w0) = Inr [demo_entry] \<and> demo_entry \<in> set [demo_entry] \<and>
   zip_url demo_entry \<in> set (gets (main demo_web w0))"
  using demo_find_entries main_fetches_every_archive [OF demo_find_entries, of demo_entry] by simp

end
