(* ===== verification/ShiftJis.thy ===== *)
theory ShiftJis
  imports Prelude
begin

text \<open>
  The text decoder of extractText (main.go lines 131-132):
  \<open>transform.Bytes(japanese.ShiftJIS.NewDecoder(), b)\<close>.  The decoder of
  golang.org/x/text reads one Shift-JIS character at a time and writes its
  UTF-8 encoding: ASCII bytes stand for themselves, 0xA1-0xDF are the
  half-width katakana U+FF61-U+FF9F, a lead byte 0x81-0x9F or 0xE0-0xFC
  with a trail byte is looked up in the JIS X 0208 table, the byte 0x80 is
  U+0080 (as in the WHATWG Shift_JIS decoder the package follows), and every
  other byte or pair becomes U+FFFD.  \<open>transform.Bytes\<close> runs it on the whole
  input at end of file.  The table (\<open>jis0208Decode\<close>, 94 columns per row) is
  a parameter of the model: it is data of the library, not code.
  \<open>sjis_decode_bytes\<close> is the conversion: the \<open>Transform\<close> loop
  over the read index, one \<open>sjis_step\<close> per round, as a recursion that
  terminates because every round consumes one or two bytes.
\<close>

type_synonym jis_table = "nat list"

definition rune_error :: nat where
  "rune_error = 0xFFFD"

text \<open>\<open>utf8.EncodeRune\<close>: surrogates and values above U+10FFFF are written as U+FFFD.\<close>

definition encode_rune :: "nat \<Rightarrow> bytes" where
  "encode_rune r =
     (if r \<le> 0x7F then [char_of r]
      else if r \<le> 0x7FF then [char_of (0xC0 + r div 64), char_of (0x80 + r mod 64)]
      else (let r' = (if 0x10FFFF < r \<or> (0xD800 \<le> r \<and> r \<le> 0xDFFF) then rune_error else r) in
            if r' \<le> 0xFFFF
            then [char_of (0xE0 + r' div 4096), char_of (0x80 + r' div 64 mod 64), char_of (0x80 + r' mod 64)]
            else [char_of (0xF0 + r' div 262144), char_of (0x80 + r' div 4096 mod 64),
                  char_of (0x80 + r' div 64 mod 64), char_of (0x80 + r' mod 64)]))"

text \<open>The two-byte case: \<open>jis0208Decode[c0*94 + c1]\<close>, a zero entry or an index past the table meaning U+FFFD.\<close>

definition jis_lookup :: "jis_table \<Rightarrow> nat \<Rightarrow> nat \<Rightarrow> nat \<times> nat" where
  "jis_lookup tbl c0 c1 =
     (let i = c0 * 94 + c1 in (if i < length tbl \<and> tbl ! i \<noteq> 0 then tbl ! i else rune_error, 2))"

text \<open>One round of the decoder's loop on a non-empty input: the rune read and the bytes consumed.\<close>

definition sjis_step :: "jis_table \<Rightarrow> bytes \<Rightarrow> nat \<times> nat" where
  "sjis_step tbl src =
     (let c0 = byte (src ! 0) in
      if c0 < 0x80 then (c0, 1)
      else if 0xA1 \<le> c0 \<and> c0 < 0xE0 then (c0 + (0xFF61 - 0xA1), 1)
      else if (0x81 \<le> c0 \<and> c0 < 0xA0) \<or> (0xE0 \<le> c0 \<and> c0 < 0xFD) then
        (let l = 2 * (if c0 \<le> 0x9F then c0 - 0x70 else c0 - 0xB0) - 0x21 in
         if length src < 2 then (rune_error, 1)
         else (let c1 = byte (src ! 1) in
               if c1 < 0x40 then (rune_error, 1)
               else if c1 < 0x7F then jis_lookup tbl (l - 1) (c1 - 0x40)
               else if c1 = 0x7F then (rune_error, 1)
               else if c1 < 0x9F then jis_lookup tbl (l - 1) (c1 - 0x41)
               else if c1 < 0xFD then jis_lookup tbl l (c1 - 0x9F)
               else (rune_error, 2)))
      else if c0 = 0x80 then (0x80, 1)
      else (rune_error, 1))"

function sjis_decode_bytes :: "jis_table \<Rightarrow> bytes \<Rightarrow> bytes" where
  "sjis_decode_bytes tbl src =
     (if src = [] then []
      else (let (r, n) = sjis_step tbl src in encode_rune r @ sjis_decode_bytes tbl (drop n src)))"
  by pat_completeness auto
termination
proof (relation "measure (\<lambda>(tbl, src). length src)")
  fix tbl :: jis_table and src :: bytes and x :: "nat \<times> nat" and r n :: nat
  assume "src \<noteq> []" and "x = sjis_step tbl src" and "(r, n) = x"
  moreover have "0 < snd (sjis_step tbl src)" by (simp add: sjis_step_def jis_lookup_def Let_def)
  ultimately have "0 < n" by (metis snd_conv)
  with \<open>src \<noteq> []\<close> show "((tbl, drop n src), tbl, src) \<in> measure (\<lambda>(tbl, src). length src)"
    by simp
qed simp

declare sjis_decode_bytes.simps [simp del]

text \<open>
  Reference for the two-byte case: the standard Shift_JIS mapping of a lead
  byte \<open>s1\<close> and a trail byte \<open>s2\<close> to the row (ku) and cell (ten),
  both counted from 1, of JIS X 0208; an odd lead-byte offset gives rows in
  pairs, the trail byte choosing the first row below 0x9F and the second
  from it.  \<open>jis_cell\<close> reads that cell of the table, a hole being U+FFFD.
\<close>

definition sjis_lead :: "nat \<Rightarrow> bool" where
  "sjis_lead s1 \<longleftrightarrow> (0x81 \<le> s1 \<and> s1 \<le> 0x9F) \<or> (0xE0 \<le> s1 \<and> s1 \<le> 0xFC)"

definition sjis_pair :: "nat \<Rightarrow> nat \<Rightarrow> bool" where
  "sjis_pair s1 s2 \<longleftrightarrow> sjis_lead s1 \<and> 0x40 \<le> s2 \<and> s2 \<le> 0xFC \<and> s2 \<noteq> 0x7F"

definition kuten :: "nat \<Rightarrow> nat \<Rightarrow> nat \<times> nat" where
  "kuten s1 s2 =
     (let k = 2 * (if s1 \<le> 0x9F then s1 - 0x81 else s1 - 0xC1) + 1 in
      if 0x9F \<le> s2 then (k + 1, s2 - 0x9E)
      else if s2 < 0x7F then (k, s2 - 0x3F) else (k, s2 - 0x40))"

definition jis_cell :: "jis_table \<Rightarrow> nat \<times> nat \<Rightarrow> nat" where
  "jis_cell tbl kt =
     (let i = (fst kt - 1) * 94 + (snd kt - 1) in
      if i < length tbl \<and> tbl ! i \<noteq> 0 then tbl ! i else rune_error)"

lemma sjis_step_size: "snd (sjis_step tbl src) \<in> {1, 2}"
  by (simp add: sjis_step_def jis_lookup_def Let_def)

lemma sjis_step_pos: "0 < snd (sjis_step tbl src)"
  using sjis_step_size [of tbl src] by auto

lemma sjis_decode_Cons:
  "sjis_decode_bytes tbl (c # s) =
     encode_rune (fst (sjis_step tbl (c # s))) @ sjis_decode_bytes tbl (drop (snd (sjis_step tbl (c # s))) (c # s))"
  by (subst sjis_decode_bytes.simps) (simp add: case_prod_beta)

lemma sjis_decode_Nil [simp]: "sjis_decode_bytes tbl [] = []"
  by (subst sjis_decode_bytes.simps) simp

lemma encode_rune_ascii: "byte c < 128 \<Longrightarrow> encode_rune (byte c) = [c]"
  by (simp add: encode_rune_def byte_def)

lemma sjis_step_ascii: "byte c < 128 \<Longrightarrow> sjis_step tbl (c # s) = (byte c, 1)"
  by (simp add: sjis_step_def)

lemma sjis_decode_ascii: "list_all (\<lambda>c. byte c < 128) s \<Longrightarrow> sjis_decode_bytes tbl s = s"
  by (induction s) (simp_all add: sjis_decode_Cons sjis_step_ascii encode_rune_ascii)

lemma sjis_step_kana:
  "0xA1 \<le> byte c \<Longrightarrow> byte c < 0xE0 \<Longrightarrow> sjis_step tbl (c # s) = (byte c + 0xFEC0, 1)"
  by (simp add: sjis_step_def)

lemma sjis_step_le: "src \<noteq> [] \<Longrightarrow> snd (sjis_step tbl src) \<le> length src"
  by (cases src) (simp_all add: sjis_step_def jis_lookup_def Let_def Suc_le_eq)

lemma lead_row:
  assumes "(0x81 \<le> c0 \<and> c0 \<le> 0x9F) \<or> (0xE0 \<le> c0 \<and> c0 \<le> (0xFC::nat))"
  shows "2 * (if c0 \<le> 0x9F then c0 - 0x70 else c0 - 0xB0) - 0x21 =
         2 * (if c0 \<le> 0x9F then c0 - 0x81 else c0 - 0xC1) + 1"
  using assms by auto

lemma sjis_step_lead:
  assumes "sjis_lead (byte a)"
  shows "sjis_step tbl (a # b # s) =
    (let l = 2 * (if byte a \<le> 0x9F then byte a - 0x81 else byte a - 0xC1) + 1; c1 = byte b in
       if c1 < 0x40 then (rune_error, 1)
       else if c1 < 0x7F then jis_lookup tbl (l - 1) (c1 - 0x40)
       else if c1 = 0x7F then (rune_error, 1)
       else if c1 < 0x9F then jis_lookup tbl (l - 1) (c1 - 0x41)
       else if c1 < 0xFD then jis_lookup tbl l (c1 - 0x9F)
       else (rune_error, 2))"
proof -
  have h1: "\<not> byte a < 0x80" and h2: "\<not> (0xA1 \<le> byte a \<and> byte a < 0xE0)"
    and h3: "(0x81 \<le> byte a \<and> byte a < 0xA0) \<or> (0xE0 \<le> byte a \<and> byte a < 0xFD)"
    using assms by (auto simp: sjis_lead_def)
  show ?thesis
    unfolding sjis_step_def Let_def nth_Cons_0 if_not_P [OF h1] if_not_P [OF h2] if_P [OF h3]
      lead_row [OF assms [unfolded sjis_lead_def]] by simp
qed
lemma sjis_step_pair:
  assumes "sjis_pair (byte a) (byte b)"
  shows "sjis_step tbl (a # b # s) = (jis_cell tbl (kuten (byte a) (byte b)), 2)"
proof -
  have lead: "sjis_lead (byte a)"
    and tr: "0x40 \<le> byte b" "byte b \<le> 0xFC" "byte b \<noteq> 0x7F"
    using assms by (simp_all add: sjis_pair_def)
  define r where "r = (if byte a \<le> 0x9F then byte a - 0x81 else byte a - 0xC1)"
  have st: "sjis_step tbl (a # b # s) =
    (if byte b < 0x7F then jis_lookup tbl (2 * r) (byte b - 0x40)
     else if byte b < 0x9F then jis_lookup tbl (2 * r) (byte b - 0x41)
     else jis_lookup tbl (2 * r + 1) (byte b - 0x9F))"
    using tr unfolding sjis_step_lead [OF lead] r_def [symmetric] Let_def by simp
  have kt: "kuten (byte a) (byte b) =
    (if 0x9F \<le> byte b then (2 * r + 2, byte b - 0x9E)
     else if byte b < 0x7F then (2 * r + 1, byte b - 0x3F) else (2 * r + 1, byte b - 0x40))"
    unfolding kuten_def Let_def r_def [symmetric] by simp
  show ?thesis
    using tr unfolding st kt by (auto simp: jis_lookup_def jis_cell_def Let_def)
qed


text \<open>
  C27: text that is plain ASCII passes through the decoder unchanged.
\<close>

theorem sjis_ascii_identity:
  assumes "list_all (\<lambda>c. byte c < 128) s"
  shows "sjis_decode_bytes tbl s = s"
  using assms by (rule sjis_decode_ascii)

theorem sjis_ascii_identity_witness:
  "list_all (\<lambda>c. byte c < 128) ''Rashomon'' \<and> sjis_decode_bytes [] ''Rashomon'' = ''Rashomon''"
proof -
  have h: "list_all (\<lambda>c. byte c < 128) ''Rashomon''" by (simp add: byte_def)
  show ?thesis using h sjis_ascii_identity [OF h, of "[]"] by blast
qed

text \<open>
  C29: a byte 0xA1-0xDF is the half-width katakana U+FF61-U+FF9F, decoded
  on its own whatever follows it.
\<close>

theorem sjis_kana:
  assumes "0xA1 \<le> byte c" and "byte c < 0xE0"
  shows "sjis_decode_bytes tbl (c # s) = encode_rune (byte c + 0xFEC0) @ sjis_decode_bytes tbl s"
  using assms by (simp add: sjis_decode_Cons sjis_step_kana)

theorem sjis_kana_witness:
  "0xA1 \<le> byte (char_of (0xB1::nat)) \<and> byte (char_of (0xB1::nat)) < 0xE0 \<and>
   sjis_decode_bytes [] [char_of (0xB1::nat), CHR ''a''] =
     encode_rune (byte (char_of (0xB1::nat)) + 0xFEC0) @ sjis_decode_bytes [] ''a''"
proof -
  have h1: "0xA1 \<le> byte (char_of (0xB1::nat))" by (simp add: byte_def)
  have h2: "byte (char_of (0xB1::nat)) < 0xE0" by (simp add: byte_def)
  show ?thesis using h1 h2 sjis_kana [OF h1 h2, of "[]" "''a''"] by blast
qed

text \<open>
  C32: a valid two-byte character (lead 0x81-0x9F or 0xE0-0xFC, trail
  0x40-0xFC other than 0x7F) decodes to the JIS X 0208 cell that the
  standard Shift_JIS mapping assigns to it: the decoder's row and column
  arithmetic implements the kuten conversion, and both bytes are consumed.
\<close>

theorem sjis_pair_decode:
  assumes "sjis_pair (byte a) (byte b)"
  shows "sjis_decode_bytes tbl (a # b # s) = encode_rune (jis_cell tbl (kuten (byte a) (byte b))) @ sjis_decode_bytes tbl s"
  using assms by (simp add: sjis_decode_Cons sjis_step_pair)

theorem sjis_pair_decode_witness:
  "sjis_pair (byte (char_of (0x88::nat))) (byte (char_of (0x9F::nat))) \<and>
   sjis_decode_bytes (replicate 1410 0 @ [0x4E9C]) [char_of (0x88::nat), char_of (0x9F::nat)] =
     encode_rune 0x4E9C"
proof -
  have h: "sjis_pair (byte (char_of (0x88::nat))) (byte (char_of (0x9F::nat)))"
    by (simp add: sjis_pair_def sjis_lead_def byte_def)
  have c: "jis_cell (replicate 1410 0 @ [0x4E9C]) (kuten (byte (char_of (0x88::nat))) (byte (char_of (0x9F::nat)))) = 0x4E9C"
    by (simp add: jis_cell_def kuten_def byte_def nth_append)
  show ?thesis using h c sjis_pair_decode [OF h, of "replicate 1410 0 @ [0x4E9C]" "[]"] by simp
qed

end
