(* ===== verification/Utf8.thy ===== *)
theory Utf8
  imports Regexp ShiftJis
begin

text \<open>
  The two UTF-8 codecs of the program meet here.  The Shift-JIS decoder of
  extractText writes its output with \<open>utf8.EncodeRune\<close>
  (\<open>encode_rune\<close>), and the regexp engine of findEntries reads strings
  rune by rune with \<open>utf8.DecodeRuneInString\<close> (\<open>rune_width\<close>,
  \<open>runes\<close>).  The lemmas check each encoding length against the
  decoder's first-byte table and accept ranges: the lower bounds of
  0xE0 and 0xF0, the surrogate gap of 0xED and the U+10FFFF limit of 0xF4.
\<close>

section \<open>Widths of encoded runes\<close>

lemma byte_char_of: "n < 256 \<Longrightarrow> byte (char_of n) = n"
  by (simp add: byte_def)

lemma rune_width_2:
  "rune_seq (byte a) = 2 \<Longrightarrow> second_ok (byte a) (byte b) \<Longrightarrow> rune_width (a # b # s) = 2"
  by (simp add: rune_width_def)

lemma rune_width_3:
  "rune_seq (byte a) = 3 \<Longrightarrow> second_ok (byte a) (byte b) \<Longrightarrow> is_cont c \<Longrightarrow>
   rune_width (a # b # c # s) = 3"
  by (simp add: rune_width_def)

lemma rune_width_4:
  "rune_seq (byte a) = 4 \<Longrightarrow> second_ok (byte a) (byte b) \<Longrightarrow> is_cont c \<Longrightarrow> is_cont d \<Longrightarrow>
   rune_width (a # b # c # d # s) = 4"
  by (simp add: rune_width_def)

lemma cont_byte: "is_cont (char_of (0x80 + n mod 64 :: nat))"
  by (simp add: is_cont_def byte_def)

lemma encode_rune_1: "r \<le> 0x7F \<Longrightarrow> rune_width (encode_rune r @ s) = length (encode_rune r)"
  by (simp add: encode_rune_def rune_width_ascii byte_def)

lemma encode_rune_2:
  assumes "0x7F < r" "r \<le> 0x7FF"
  shows "rune_width (encode_rune r @ s) = length (encode_rune r)"
proof -
  have d: "2 \<le> r div 64" "r div 64 \<le> 31"
    using div_le_mono [of 128 r 64] div_le_mono [of r 2047 64] assms by simp_all
  have e: "encode_rune r = [char_of (0xC0 + r div 64), char_of (0x80 + r mod 64)]"
    using assms by (simp add: encode_rune_def)
  have b0: "byte (char_of (0xC0 + r div 64)) = 0xC0 + r div 64" using d by (simp add: byte_char_of)
  have b1: "byte (char_of (0x80 + r mod 64)) = 0x80 + r mod 64" by (simp add: byte_char_of)
  show ?thesis unfolding e using d
    by (simp add: rune_width_2 b0 b1 rune_seq_def second_ok_def)
qed
lemma encode_rune_3:
  assumes "0x800 \<le> r" "r \<le> 0xFFFF" "\<not> (0xD800 \<le> r \<and> r \<le> 0xDFFF)"
  shows "rune_width (encode_rune r @ s) = length (encode_rune r)"
proof -
  have c: "(0x10FFFF < r \<or> (0xD800 \<le> r \<and> r \<le> 0xDFFF)) = False" using assms by auto
  have e: "encode_rune r = [char_of (0xE0 + r div 4096), char_of (0x80 + r div 64 mod 64), char_of (0x80 + r mod 64)]"
    unfolding encode_rune_def Let_def c if_False using assms by simp
  have d: "r div 4096 \<le> 15" using div_le_mono [of r 65535 4096] assms by simp
  have b0: "byte (char_of (0xE0 + r div 4096)) = 0xE0 + r div 4096" using d by (simp add: byte_char_of)
  have b1: "byte (char_of (0x80 + r div 64 mod 64)) = 0x80 + r div 64 mod 64" by (simp add: byte_char_of)
  have q: "r div 4096 = r div 64 div 64" using div_mult2_eq [of r 64 64] by simp
  have m: "r div 64 = 64 * (r div 64 div 64) + r div 64 mod 64" by simp
  have lo: "32 \<le> r div 64" using div_le_mono [of 2048 r 64] assms by simp
  have s1: "r div 4096 = 0 \<Longrightarrow> 32 \<le> r div 64 mod 64" using q lo m by linarith
  have s2: "r div 4096 = 13 \<Longrightarrow> r div 64 mod 64 \<le> 31"
  proof -
    assume t: "r div 4096 = 13"
    have "r = 4096 * (r div 4096) + r mod 4096" "r mod 4096 < 4096" by simp_all
    with t assms have "r \<le> 55295" by linarith
    then have "r div 64 \<le> 863" using div_le_mono [of r 55295 64] by simp
    with t show ?thesis using q m by linarith
  qed
  have rs: "rune_seq (byte (char_of (0xE0 + r div 4096))) = 3" using d by (simp add: b0 rune_seq_def)
  have so: "second_ok (byte (char_of (0xE0 + r div 4096))) (byte (char_of (0x80 + r div 64 mod 64)))"
    unfolding b0 b1 second_ok_def using s1 s2 d by auto
  show ?thesis using rune_width_3 [OF rs so cont_byte, where s = s] by (simp add: e)
qed

lemma encode_rune_4:
  assumes "0xFFFF < r" "r \<le> 0x10FFFF"
  shows "rune_width (encode_rune r @ s) = length (encode_rune r)"
proof -
  have e: "encode_rune r = [char_of (0xF0 + r div 262144), char_of (0x80 + r div 4096 mod 64),
                            char_of (0x80 + r div 64 mod 64), char_of (0x80 + r mod 64)]"
    using assms by (simp add: encode_rune_def Let_def)
  have d: "r div 262144 \<le> 4" using div_le_mono [of r 1114111 262144] assms by simp
  have b0: "byte (char_of (0xF0 + r div 262144)) = 0xF0 + r div 262144" using d by (simp add: byte_char_of)
  have b1: "byte (char_of (0x80 + r div 4096 mod 64)) = 0x80 + r div 4096 mod 64" by (simp add: byte_char_of)
  have q: "r div 262144 = r div 4096 div 64" using div_mult2_eq [of r 4096 64] by simp
  have lo: "16 \<le> r div 4096" using div_le_mono [of 65536 r 4096] assms by simp
  have hi: "r div 4096 \<le> 271" using div_le_mono [of r 1114111 4096] assms by simp
  have m: "r div 4096 = 64 * (r div 4096 div 64) + r div 4096 mod 64" by simp
  have s1: "r div 262144 = 0 \<Longrightarrow> 16 \<le> r div 4096 mod 64" using q lo m by linarith
  have s2: "r div 262144 = 4 \<Longrightarrow> r div 4096 mod 64 \<le> 15" using q hi m by linarith
  have rs: "rune_seq (byte (char_of (0xF0 + r div 262144))) = 4" using d by (simp add: b0 rune_seq_def)
  have so: "second_ok (byte (char_of (0xF0 + r div 262144))) (byte (char_of (0x80 + r div 4096 mod 64)))"
    unfolding b0 b1 second_ok_def using s1 s2 d by auto
  show ?thesis using rune_width_4 [OF rs so cont_byte cont_byte, where s = s] by (simp add: e)
qed
lemma encode_rune_invalid:
  "0x10FFFF < r \<or> (0xD800 \<le> r \<and> r \<le> 0xDFFF) \<Longrightarrow> encode_rune r = encode_rune rune_error"
  by (auto simp: encode_rune_def Let_def rune_error_def)

lemma rune_width_encode: "rune_width (encode_rune r @ s) = length (encode_rune r)"
proof -
  consider "r \<le> 0x7F" | "0x7F < r \<and> r \<le> 0x7FF"
    | "0x7FF < r \<and> r \<le> 0xFFFF \<and> \<not> (0xD800 \<le> r \<and> r \<le> 0xDFFF)"
    | "0xFFFF < r \<and> r \<le> 0x10FFFF" | "0x10FFFF < r \<or> (0xD800 \<le> r \<and> r \<le> 0xDFFF)"
    by linarith
  then show ?thesis
  proof cases
    case 5
    have "rune_width (encode_rune rune_error @ s) = length (encode_rune rune_error)"
      by (rule encode_rune_3) (simp_all add: rune_error_def)
    with 5 show ?thesis by (simp add: encode_rune_invalid)
  qed (auto intro: encode_rune_1 encode_rune_2 encode_rune_3 encode_rune_4)
qed

lemma encode_rune_ne: "encode_rune r \<noteq> []"
  by (simp add: encode_rune_def Let_def)

lemma runes_encode: "runes (encode_rune r @ s) = encode_rune r # runes s"
  using encode_rune_ne [of r] by (subst runes.simps) (simp add: rune_width_encode)

section \<open>Properties\<close>

text \<open>
  C22: the rune decoder reads a concatenation of UTF-8 encodings, as
  \<open>utf8.EncodeRune\<close> writes them for any code point, back as exactly
  those encodings, one rune each: its accept ranges admit every encoding
  the encoder produces.
\<close>

theorem runes_encode_runes: "runes (concat (map encode_rune rs)) = map encode_rune rs"
  by (induction rs) (simp_all add: runes_encode)


end
