(* ===== verification/Spec2Isabelle.thy ===== *)
theory Spec2Isabelle
  imports Examples Utf8
begin

text \<open>
  \<^bold>\<open>Verification development of aozora-search's collector\<close>
  (src/cmd/aozora-collector/main.go).

  \<^bold>\<open>The program.\<close>  \<open>main\<close> fetches the author index
  \<open>https://www.aozora.gr.jp/index_pages/person879.html\<close> through
  \<open>findEntries\<close>.  Every \<open>ol li a\<close> anchor whose href matches
  \<open>.*/cards/([0-9]+)/card([0-9]+).html$\<close> names a work.  Its detail page
  is rebuilt from the two identifiers and read by \<open>findAuthorAndZIP\<close>,
  which takes the author cell of the author table and the last \<open>.zip\<close>
  link of \<open>table.download\<close>.  It resolves that link against the detail
  page with \<open>path.Join\<close>, \<open>path.Dir\<close>, \<open>url.Parse\<close> and
  \<open>URL.String\<close>.  Each work with an archive link becomes an \<open>Entry\<close>.
  \<open>main\<close> then calls \<open>extractText\<close> on every entry: it downloads the
  archive, opens the first member whose \<open>path.Ext\<close> is \<open>.txt\<close>, decodes
  it from Shift-JIS, and prints SiteURL and the text.  A failed entry is
  logged and skipped; an error on the index page is fatal
  (\<open>log.Fatal\<close>).

  \<^bold>\<open>Theories and correspondence.\<close>
  \<^item> \<open>Prelude\<close>: strings as byte lists (\<^typ>\<open>string\<close>); errors as
    their message (\<open>goerr\<close>, the \<open>Inl\<close> side of a sum); ASCII classes;
    shared list lemmas; the collections \<open>go_defs\<close> and \<open>go_simps\<close>.
  \<^item> \<open>GoPath\<close>: Go's \<open>strings.HasSuffix\<close>, \<open>strings.HasPrefix\<close> and
    \<open>path.Ext\<close>.  \<open>path.Clean\<close> is the lazybuf byte loop
    \<open>clean_loop\<close>/\<open>clean_back\<close>; then \<open>Split\<close>, \<open>Dir\<close> and \<open>Join\<close>.
  \<^item> \<open>PathClean\<close>: the documented segment-stack semantics
    \<open>clean_ref\<close> of \<open>path.Clean\<close> and the proofs about the byte loop
    (equivalence, normal form and idempotence, rewriting laws), with \<open>path.Dir\<close>/\<open>path.Join\<close>
    evaluated on detail-page paths.
  \<^item> \<open>Regexp\<close>: Go's \<open>regexp\<close>, restricted to the syntax the pattern of
    line 79 uses.  Its leftmost-first backtracking semantics is
    \<open>bt\<close>/\<open>bt_rep\<close> with the unanchored \<open>search\<close>, run over the rune
    sequence \<open>runes\<close>.  Runes have \<open>utf8.DecodeRuneInString\<close>'s widths; an
    invalid byte is a one-byte rune.  \<open>find_string_submatch\<close> is
    \<open>FindStringSubmatch\<close>, \<open>card_pat\<close> the compiled pattern, and
    \<open>card_tokens\<close> lines 81-82.
  \<^item> \<open>Html\<close>: the parsed document as a \<open>node\<close> tree.  Cascadia's
    selectors: type, class (by \<open>matchInclude\<close>), attribute equality,
    \<open>nth-child\<close> and descendant.  Goquery's \<open>Find\<close> (a pre-order
    \<open>walk\<close>), \<open>First\<close>, \<open>Text\<close> and \<open>AttrOr\<close>, and the program's three
    selectors.
  \<^item> \<open>NetUrl\<close>: \<open>url.Parse\<close>, covering scheme, opaque part, authority,
    path (with \<open>setPath\<close> and \<open>unescape\<close>), query and fragment.
    \<open>URL.String\<close> with \<open>EscapedPath\<close> and \<open>shouldEscape\<close>.
  \<^item> \<open>Collector\<close>: \<open>Entry\<close> as the record \<open>entry\<close>.  The environment
    \<open>web\<close> holds the outcomes of \<open>http.Get\<close>, the body read, the HTML
    parser, \<open>zip.NewReader\<close>/\<open>File.Open\<close> and the Shift-JIS decoder.  The
    process state \<open>world\<close> (requests made, stdout, stderr, exit status) is
    passed explicitly.  These definitions follow the functions of main.go
    line by line:
    \<^item> \<open>find_author_and_zip\<close>;
    \<^item> \<open>find_entries\<close>, a \<open>foldl\<close> of \<open>entry_step\<close>, which is the
      \<open>Each\<close> callback;
    \<^item> \<open>extract_text\<close>, whose \<open>for\<close> loop of lines 119-139 is
      \<open>txt_loop\<close>;
    \<^item> \<open>main\<close>, a \<open>foldl\<close> of \<open>main_step\<close>.
  \<^item> \<open>ShiftJis\<close>: the decoder behind lines 131-132,
    \<open>transform.Bytes(japanese.ShiftJIS.NewDecoder(), b)\<close> of
    golang.org/x/text: \<open>sjis_step\<close> is one round of its \<open>Transform\<close> loop
    (ASCII, half-width katakana, two-byte JIS X 0208 lookup, 0x80 as
    U+0080 as in the WHATWG decoder, U+FFFD for everything else),
    \<open>encode_rune\<close> is \<open>utf8.EncodeRune\<close>, and \<open>sjis_decode_bytes\<close> the
    whole conversion at end of input.
  \<^item> \<open>Utf8\<close>: where the two UTF-8 codecs meet, the encoder of the
    decoder's output and the rune reader of the regexp engine.
  \<^item> \<open>Examples\<close>: a concrete web (index page, detail page, archives) on
    which \<open>code_simp\<close> evaluates the whole program, plus the instances of
    the theorems that have hypotheses.

  \<^bold>\<open>What is proved.\<close>
  \<^item> Refinement: \<open>find_entries\<close>, \<open>extract_text\<close> and \<open>main\<close> equal
    list comprehensions over the anchors and entries that do not thread the
    process state (C1, C10, C13).
  \<^item> The entry invariant (C2).
  \<^item> The exact behaviour of the identifier regexp, in both directions
    (C3, C4).  This includes that the unescaped dot admits any rune before
    \<open>html\<close>.
  \<^item> The download loop keeps the last \<open>.zip\<close> link (C5).
  \<^item> Absolute links are never recognised, because line 53 tests
    \<open>HasSuffix\<close> (C6).
  \<^item> The first \<open>.txt\<close> member is decoded; a missing one falls back to the
    URL; every error path returns its error (C7-C9).
  \<^item> main's fatal path (C11), the URLs it prints (C12), the silence of
    \<open>findEntries\<close> (C14), and that every entry's archive is requested
    however earlier entries fared (C26).  No status code influences the
    run: the network with every status replaced (\<open>with_status\<close>) gives
    main the same outcome (C31).
  \<^item> \<open>path.Ext\<close> against \<open>suffix\<close> (C15).
  \<^item> Descendant selectors as ordered embeddings into the ancestor chain
    (C16); the class selector as membership among the whitespace-separated
    class words (C24); the traversal numbers element children as
    \<open>:nth-child\<close> counts them (C25).
  \<^item> \<open>path.Clean\<close>'s byte loop equals the documented segment-stack
    semantics \<open>clean_ref\<close> (C17).  Its result is the rendering of a
    normal stack (\<open>norm_stack\<close>: no empty or \<open>.\<close> elements, \<open>..\<close> only
    leading a relative path), and cleaning it again changes nothing (C30).
    The documented rewriting rules hold as laws: \<open>/./\<close> vanishes, \<open>//\<close>
    collapses, and \<open>e/..\<close> cancels (C34).
  \<^item> \<open>net/url\<close>: escaping round-trips through \<open>setPath\<close> (C18); a path
    grows by exactly two bytes for each byte outside the unreserved and
    path sub-delimiter sets (C19); \<open>url.Parse\<close> inverts \<open>URL.String\<close> on
    simple absolute URLs (C23).  Percent-decoding fails exactly when some
    \<open>%\<close> lacks two hex digits after it (C35).
  \<^item> On any detail page, a \<open>.zip\<close> href resolves to the escaped, cleaned
    path \<open>/cards/A/href\<close> on \<open>www.aozora.gr.jp\<close> (C20).  Hence every
    ZipURL \<open>findEntries\<close> returns lies on that host (C21, stated in this
    theory because it composes all components).
  \<^item> The Shift-JIS decoder leaves ASCII unchanged (C27) and decodes
    half-width katakana byte by byte (C29).  A valid two-byte character is
    read from the JIS X 0208 cell of the standard Shift_JIS-to-kuten
    mapping (\<open>kuten\<close>, \<open>jis_cell\<close>) (C32).  An invalid byte becomes
    U+FFFD, and after a lead byte whose trail is impossible the trail byte
    is read again, so the decoder never fails and salvages the text around
    corrupt bytes (C33).
  \<^item> UTF-8: the rune reader of the regexp engine reads every encoding
    \<open>utf8.EncodeRune\<close> writes as one rune, which checks its accept ranges
    against the encoder (C22); hence the decoder's output is valid UTF-8,
    with one rune per one or two input bytes (C28).

  \<^bold>\<open>Bounds and fuel.\<close>  Every loop of the program runs over a finite list
  (anchors, entries, archive members), so every definition is total and no
  fuel is needed.  The Shift-JIS loop consumes one or two bytes per round
  and terminates by the input length.  The regexp engine terminates by a
  lexicographic order on its arguments, the pattern and the remaining
  input.  \<open>runes\<close> terminates by the input length, and \<open>path.Clean\<close>
  by the read-index measure.

  \<^bold>\<open>Not modelled.\<close>
  \<^item> The network, the HTML tokenizer and the ZIP format are libraries the
    code only calls.  Their outcomes, errors included, are the fields of
    \<open>web\<close>.
  \<^item> The JIS X 0208 table of the Shift-JIS decoder (\<open>jis0208Decode\<close>, about
    7000 entries of library data) is a parameter of \<open>sjis_decode_bytes\<close>.
    Hence no encoder is modelled, and the spec's decode round trip (P5) is
    not stated.
  \<^item> \<open>log\<close>'s timestamp prefix is output formatting.
  \<^item> \<open>net/url\<close> is modelled only for the URLs the program builds: no
    userinfo or host validation, ports, IPv6 or \<open>RawFragment\<close>.
  \<^item> The deferred \<open>Body.Close\<close> calls have no observable effect.
\<close>

section \<open>Properties across components\<close>

text \<open>
  C21: every archive URL findEntries returns lies on the Aozora Bunko host:
  it is \<open>https://www.aozora.gr.jp/\<close> followed by the escaped, cleaned path
  of a \<open>.zip\<close> href under the work's \<open>/cards/AutorID/\<close> directory.  This
  composes the regexp (digit identifiers), the detail-page parser (last
  \<open>.zip\<close> link), \<open>url.Parse\<close>, \<open>path.Dir\<close>, \<open>path.Join\<close>/\<open>path.Clean\<close> and
  \<open>URL.String\<close>; in particular an absolute link to another host is never
  downloaded as such (see C6).
\<close>

theorem entries_zip_on_aozora:
  assumes "fst (find_entries wb s w) = Inr es" and "e \<in> set es"
  shows "prefix ''https://www.aozora.gr.jp/'' (zip_url e) \<and>
         (\<exists>h. has_suffix h ''.zip'' \<and>
              zip_url e = ''https://www.aozora.gr.jp'' @
                          escape (clean_ref (''/cards/'' @ autor_id e @ ''/'' @ h)) EncodePath)"
proof -
  from find_entries_Inr [OF assms(1)] obtain doc where
    "es = concat (map (anchor_entry wb s) (find_sel doc list_sel))" by blast
  with assms(2) obtain l where l: "e \<in> set (anchor_entry wb s l)" by auto
  from anchor_entry_wf [OF l] have d: "digits (autor_id e)" "digits (title_id e)" by simp_all
  from anchor_entry_zip [OF l] obtain h where h: "has_suffix h ''.zip''"
    and z: "zip_url e = resolve_zip (page_url (autor_id e) (title_id e)) h" by blast
  have eq: "zip_url e = ''https://www.aozora.gr.jp'' @
                        escape (clean_ref (''/cards/'' @ autor_id e @ ''/'' @ h)) EncodePath"
    using z resolve_zip_card_eq [OF d h] by simp
  then have "prefix ''https://www.aozora.gr.jp/'' (zip_url e)"
    by (simp add: clean_ref_rooted escape_slash)
  with eq h show ?thesis by blast
qed

theorem entries_zip_on_aozora_witness:
  "fst (find_entries demo_web list_url w0) = Inr [demo_entry] \<and> demo_entry \<in> set [demo_entry] \<and>
   prefix ''https://www.aozora.gr.jp/'' (zip_url demo_entry) \<and>
   (\<exists>h. has_suffix h ''.zip'' \<and>
        zip_url demo_entry = ''https://www.aozora.gr.jp'' @
                             escape (clean_ref (''/cards/'' @ autor_id demo_entry @ ''/'' @ h)) EncodePath)"
  using demo_find_entries entries_zip_on_aozora [OF demo_find_entries, of demo_entry] by simp

end
